theory Spec2Isabelle
  imports Complex_Main "HOL-Library.Word" "HOL-Library.Signed_Division"
begin

section \<open>C values of the example programs\<close>

text \<open>
  The programs \<^verbatim>\<open>example.c\<close> and \<^verbatim>\<open>complex_sample.c\<close> under \<^verbatim>\<open>src/examples\<close> use
  \<^verbatim>\<open>int\<close>, \<^verbatim>\<open>char\<close> and \<^verbatim>\<open>double\<close>. (The third program, \<^verbatim>\<open>simple.c\<close>, is a \<^verbatim>\<open>main\<close>
  that prints five fixed lines; it has no function to embed.)

  \<^item> \<^verbatim>\<open>int\<close> is a 32-bit word read in two's complement (\<open>sint\<close>). Signed overflow of
    \<^verbatim>\<open>+\<close>, \<^verbatim>\<open>-\<close> and \<^verbatim>\<open>*\<close> has no defined result in ISO C; the embedding takes the
    wrap-around that the machine instruction gives, which is what word arithmetic is.
  \<^item> A finite \<^verbatim>\<open>double\<close> is the real number it denotes. The statistics program
    computes in binary64 (the type \<open>double\<close> below): every operation gives the double
    nearest to the exact result, ties to even, and an infinity when that is beyond the
    largest finite double (\<open>to_double\<close>); infinities and NaN are values, combined as
    IEC 60559 says. The two zeros are not told apart.
  \<^item> What C leaves undefined or what traps (a read outside an array, an integer
    division by zero, a call beyond the end of the stack) is a \<open>fault\<close>, so that it is a
    branch of the model.
\<close>

type_synonym c_int = "32 word"

definition INT_MIN :: c_int where
  "INT_MIN = - 2147483648"

definition INT_MAX :: c_int where
  "INT_MAX = 2147483647"

datatype fault =
    Out_Of_Bounds       \<comment> \<open>an array element outside the array\<close>
  | Division_By_Zero    \<comment> \<open>\<^verbatim>\<open>%\<close> by 0 (a trap)\<close>
  | Integer_Overflow    \<comment> \<open>\<^verbatim>\<open>INT_MIN % -1\<close> (a trap)\<close>
  | Domain_Error        \<comment> \<open>\<^verbatim>\<open>pow\<close> of a negative base and a fractional exponent (NaN)\<close>
  | Pole_Error          \<comment> \<open>\<^verbatim>\<open>pow\<close> of zero and a negative exponent (infinity)\<close>
  | Stack_Overflow      \<comment> \<open>a call when the stack holds no further frame\<close>

text \<open>The operator \<^verbatim>\<open>%\<close> on \<^verbatim>\<open>int\<close>: the remainder of the division that truncates towards
  zero (\<open>smod\<close> on \<open>int\<close>).\<close>

definition c_mod :: "c_int \<Rightarrow> c_int \<Rightarrow> fault + c_int" where
  "c_mod a b =
     (if b = 0 then Inl Division_By_Zero
      else if a = INT_MIN \<and> b = - 1 then Inl Integer_Overflow
      else Inr (word_of_int (sint a smod sint b)))"

subsection \<open>Binary64 arithmetic\<close>

text \<open>The values of a \<^verbatim>\<open>double\<close>.\<close>

datatype double = Finite real | PInf | MInf | NaN

text \<open>
  Rounding to the nearest integer, ties to the even one.
\<close>

definition round_half_even :: "real \<Rightarrow> int" where
  "round_half_even y =
     (let f = \<lfloor>y\<rfloor>; d = y - of_int f
      in if d < 1 / 2 then f
         else if 1 / 2 < d then f + 1
         else if even f then f else f + 1)"

text \<open>
  The distance between neighbouring doubles around \<open>x\<close>: 52 binary places below the
  leading bit of \<open>x\<close>, and \<open>2^-1074\<close> for the subnormal numbers below \<open>2^-1022\<close>.
\<close>

definition quantum :: "real \<Rightarrow> real" where
  "quantum x = 2 powi (max \<lfloor>log 2 \<bar>x\<bar>\<rfloor> (- 1022) - 52)"

definition round_double :: "real \<Rightarrow> real" where
  "round_double x = (if x = 0 then 0 else of_int (round_half_even (x / quantum x)) * quantum x)"

text \<open>The result of an operation whose exact value is \<open>x\<close>: the nearest double, or the
  infinity of the sign of \<open>x\<close> when that is beyond the largest finite double.\<close>

definition to_double :: "real \<Rightarrow> double" where
  "to_double x =
     (if \<bar>round_double x\<bar> < 2 ^ 1024 then Finite (round_double x)
      else if 0 < x then PInf else MInf)"

text \<open>The operators \<^verbatim>\<open>+\<close>, \<^verbatim>\<open>-\<close>, \<^verbatim>\<open>/\<close> and \<^verbatim>\<open>>\<close> on \<^verbatim>\<open>double\<close>. A zero divisor is taken
  as the positive zero: the divisors of the program are converted from \<^verbatim>\<open>int\<close>.\<close>

fun fadd :: "double \<Rightarrow> double \<Rightarrow> double" where
  "fadd (Finite a) (Finite b) = to_double (a + b)"
| "fadd NaN y = NaN"
| "fadd x NaN = NaN"
| "fadd PInf MInf = NaN"
| "fadd MInf PInf = NaN"
| "fadd PInf y = PInf"
| "fadd x PInf = PInf"
| "fadd MInf y = MInf"
| "fadd x MInf = MInf"

fun fsub :: "double \<Rightarrow> double \<Rightarrow> double" where
  "fsub (Finite a) (Finite b) = to_double (a - b)"
| "fsub NaN y = NaN"
| "fsub x NaN = NaN"
| "fsub PInf PInf = NaN"
| "fsub MInf MInf = NaN"
| "fsub PInf y = PInf"
| "fsub x MInf = PInf"
| "fsub MInf y = MInf"
| "fsub x PInf = MInf"

fun fdiv :: "double \<Rightarrow> double \<Rightarrow> double" where
  "fdiv (Finite a) (Finite b) =
     (if b \<noteq> 0 then to_double (a / b)
      else if a = 0 then NaN else if 0 < a then PInf else MInf)"
| "fdiv NaN y = NaN"
| "fdiv x NaN = NaN"
| "fdiv (Finite a) y = Finite 0"
| "fdiv PInf (Finite b) = (if 0 \<le> b then PInf else MInf)"
| "fdiv MInf (Finite b) = (if 0 \<le> b then MInf else PInf)"
| "fdiv x y = NaN"

fun fgt :: "double \<Rightarrow> double \<Rightarrow> bool" where
  "fgt (Finite a) (Finite b) = (b < a)"
| "fgt NaN y = False"
| "fgt x NaN = False"
| "fgt PInf PInf = False"
| "fgt PInf y = True"
| "fgt x PInf = False"
| "fgt MInf y = False"
| "fgt x MInf = True"

text \<open>The conversion of an \<^verbatim>\<open>int\<close> to \<^verbatim>\<open>double\<close>, which is exact.\<close>

definition double_of_int :: "c_int \<Rightarrow> double" where
  "double_of_int n = Finite (real_of_int (sint n))"

text \<open>A decimal constant of the source denotes the double nearest to it.\<close>

definition literal :: "real \<Rightarrow> double" where
  "literal x = to_double x"

text \<open>The real numbers that are finite doubles.\<close>

definition is_double :: "real \<Rightarrow> bool" where
  "is_double x \<longleftrightarrow> to_double x = Finite x"

text \<open>Reading \<^verbatim>\<open>arr[i]\<close> from an array of \<^verbatim>\<open>double\<close>, given as the list of its elements.\<close>

definition array_read :: "double list \<Rightarrow> c_int \<Rightarrow> fault + double" where
  "array_read arr i =
     (if 0 \<le>s i \<and> nat (sint i) < length arr then Inr (arr ! nat (sint i))
      else Inl Out_Of_Bounds)"


subsection \<open>The output stream\<close>

text \<open>
  \<^verbatim>\<open>printf\<close> appends to the standard output. The stream is threaded through every
  function that prints; a call is recorded with its format string and its arguments,
  unformatted. A \<^verbatim>\<open>double\<close> of the calculator is the result of \<open>calculate\<close>
  (\<open>Arg_Double\<close>), one of the statistics program is a binary64 value (\<open>Arg_Binary64\<close>).
\<close>

datatype printf_arg =
    Arg_Int c_int
  | Arg_Double "fault + real"
  | Arg_Binary64 double
  | Arg_Char char

type_synonym stdout = "(string \<times> printf_arg list) list"

definition printf :: "string \<Rightarrow> printf_arg list \<Rightarrow> stdout \<Rightarrow> stdout" where
  "printf fmt args out = out @ [(fmt, args)]"

subsection \<open>The power function of the C library\<close>

text \<open>
  Modelled from the spec: \<^verbatim>\<open>pow\<close> of \<^verbatim>\<open>math.h\<close>, which \<^verbatim>\<open>calculate\<close> and
  \<^verbatim>\<open>calculate_variance\<close> call and which is not part of the repository. The spec calls it
  the "standard power function semantics (fractional/negative exponents follow that
  function's domain rules)". Those rules, on real numbers: any base to the power 0 is 1;
  zero to a positive power is 0 and to a negative power is a pole error; a positive base
  takes any exponent; a negative base takes whole exponents only and a fractional one is
  a domain error.
\<close>

definition pow :: "real \<Rightarrow> real \<Rightarrow> fault + real" where
  "pow x y =
     (if y = 0 then Inr 1
      else if x = 0 then (if y < 0 then Inl Pole_Error else Inr 0)
      else if 0 < x then Inr (x powr y)
      else if y = of_int \<lfloor>y\<rfloor> then Inr (x powi \<lfloor>y\<rfloor>)
      else Inl Domain_Error)"

text \<open>
  Modelled from the spec: what the call \<^verbatim>\<open>pow(x, y)\<close> returns to \<^verbatim>\<open>calculate_variance\<close>
  for a \<^verbatim>\<open>double\<close> \<open>x\<close> and a finite exponent \<open>y\<close>. For a finite \<open>x\<close> it is the power of the
  "standard power function semantics", rounded to the nearest double, with the infinity
  of the pole and the NaN of the domain error; for the other \<open>x\<close> it is what the C
  standard lists (Annex F): the power 0 is 1, an infinity to a negative power is 0 and
  to a positive power an infinity, negative only for \<open>- \<infinity>\<close> to an odd whole power.
  The C standard sets no accuracy for \<^verbatim>\<open>pow\<close>, and a library may return a neighbour of
  the nearest double; the nearest one is also what the product \<open>x * x\<close> gives, by which
  compilers replace \<^verbatim>\<open>pow(x, 2)\<close>.
\<close>

definition pow_double :: "double \<Rightarrow> real \<Rightarrow> double" where
  "pow_double x y =
     (case x of
        Finite r \<Rightarrow>
          (case pow r y of
             Inr p \<Rightarrow> to_double p
           | Inl e \<Rightarrow> if e = Pole_Error then PInf else NaN)
      | PInf \<Rightarrow> if y = 0 then Finite 1 else if y < 0 then Finite 0 else PInf
      | MInf \<Rightarrow>
          if y = 0 then Finite 1 else if y < 0 then Finite 0
          else if y = of_int \<lfloor>y\<rfloor> \<and> odd \<lfloor>y\<rfloor> then MInf else PInf
      | NaN \<Rightarrow> if y = 0 then Finite 1 else NaN)"

section \<open>The calculator: \<^verbatim>\<open>src/examples/example.c\<close>\<close>

subsection \<open>\<^verbatim>\<open>factorial\<close>\<close>

text \<open>
  The recursion is not a tail call: the call for \<open>n\<close> keeps its frame while the call for
  \<open>n - 1\<close> runs, so \<open>factorial n\<close> needs \<open>n\<close> frames at once. The first argument is the
  number of frames that the stack still holds; a call with none left overflows the
  stack.
\<close>

fun factorial :: "nat \<Rightarrow> c_int \<Rightarrow> fault + c_int" where
  "factorial 0 n = Inl Stack_Overflow"
| "factorial (Suc frames) n =
     (if n \<le>s 1 then Inr 1
      else (case factorial frames (n - 1) of
              Inl e \<Rightarrow> Inl e
            | Inr r \<Rightarrow> Inr (n * r)))"

subsection \<open>\<^verbatim>\<open>is_prime\<close>\<close>

text \<open>
  The loop \<^verbatim>\<open>for (int i = 2; i * i <= num; i++)\<close>, from any value of \<open>i\<close>. The product
  \<open>i * i\<close> is the 32-bit one. The loop ends for every pair of words: \<open>i\<close> only goes up,
  and at \<open>i = 0\<close> either the test fails or \<^verbatim>\<open>%\<close> traps.
\<close>

function is_prime_loop :: "c_int \<Rightarrow> c_int \<Rightarrow> fault + c_int" where
  "is_prime_loop num i =
     (if i * i \<le>s num
      then (case c_mod num i of
              Inl e \<Rightarrow> Inl e
            | Inr r \<Rightarrow> if r = 0 then Inr 0 else is_prime_loop num (i + 1))
      else Inr 1)"
  by pat_completeness auto
termination
proof (relation "measure (\<lambda>(num, i). unat (- i))")
  show "wf (measure (\<lambda>(num, i). unat (- i)))"
    by simp
next
  fix num i r :: c_int
  assume "c_mod num i = Inr r"
  then have "- i \<noteq> 0"
    by (auto simp: c_mod_def split: if_splits)
  then have "unat (- i - 1) < unat (- i)"
    by (rule measure_unat)
  moreover have "- (i + 1) = - i - 1"
    by simp
  ultimately show "((num, i + 1), (num, i)) \<in> measure (\<lambda>(num, i). unat (- i))"
    by simp
qed

declare is_prime_loop.simps [simp del]

definition is_prime :: "c_int \<Rightarrow> fault + c_int" where
  "is_prime num = (if num <s 2 then Inr 0 else is_prime_loop num 2)"

subsection \<open>\<^verbatim>\<open>calculate\<close>\<close>

text \<open>
  The four arithmetic branches are given with the exact value of the operation, and
  \<^verbatim>\<open>pow\<close> with the mathematical power: what is proved of \<open>calculate\<close> below is about
  its two error branches and about the call of \<^verbatim>\<open>pow\<close>.
\<close>

definition calculate :: "real \<Rightarrow> real \<Rightarrow> char \<Rightarrow> stdout \<Rightarrow> (fault + real) \<times> stdout" where
  "calculate a b op out =
     (if op = CHR ''+'' then (Inr (a + b), out)
      else if op = CHR ''-'' then (Inr (a - b), out)
      else if op = CHR ''*'' then (Inr (a * b), out)
      else if op = CHR ''/'' then
        (if b \<noteq> 0 then (Inr (a / b), out)
         else (Inr 0, printf ''Error: Division by zero!\<newline>'' [] out))
      else if op = CHR ''^'' then (pow a b, out)
      else (Inr 0, printf ''Error: Invalid operator!\<newline>'' [] out))"

subsection \<open>\<^verbatim>\<open>main\<close>\<close>

text \<open>
  \<^verbatim>\<open>main\<close> of \<^verbatim>\<open>example.c\<close>. The values that \<^verbatim>\<open>scanf\<close> stores are arguments: the menu
  \<open>choice\<close>, the integer \<open>num1\<close> of branches 1 and 2, and \<open>d1\<close>, \<open>operator\<close>, \<open>d2\<close> of
  branch 3. The first argument is the number of frames that the stack holds for the
  call of \<open>factorial\<close>. The result is the output stream and the exit code.
\<close>

definition menu :: "stdout \<Rightarrow> stdout" where
  "menu out =
     printf ''Enter your choice: '' []
       (printf ''3. Arithmetic Operations\<newline>'' []
         (printf ''2. Prime Check\<newline>'' []
           (printf ''1. Factorial\<newline>'' []
             (printf ''=== Calculator Program ===\<newline>'' [] out))))"

definition example_main ::
  "nat \<Rightarrow> c_int \<Rightarrow> c_int \<Rightarrow> real \<Rightarrow> char \<Rightarrow> real \<Rightarrow> stdout \<Rightarrow> fault + stdout \<times> c_int"
  where
  "example_main frames choice num1 d1 operator d2 out =
     (if choice = 1 then
        (let out1 = printf ''Enter a number: '' [] (menu out) in
         if num1 <s 0
         then Inr (printf ''Error: Factorial of negative number is undefined.\<newline>'' [] out1, 0)
         else
           (case factorial frames num1 of
              Inl e \<Rightarrow> Inl e
            | Inr result \<Rightarrow>
                Inr (printf ''Factorial of %d is %d\<newline>'' [Arg_Int num1, Arg_Int result] out1,
                     0)))
      else if choice = 2 then
        (let out1 = printf ''Enter a number: '' [] (menu out) in
         case is_prime num1 of
           Inl e \<Rightarrow> Inl e
         | Inr p \<Rightarrow>
             if p \<noteq> 0
             then Inr (printf ''%d is a prime number.\<newline>'' [Arg_Int num1] out1, 0)
             else Inr (printf ''%d is not a prime number.\<newline>'' [Arg_Int num1] out1, 0))
      else if choice = 3 then
        (let out1 = printf ''Enter first number: '' [] (menu out);
             out2 = printf ''Enter operator (+, -, *, /, ^): '' [] out1;
             out3 = printf ''Enter second number: '' [] out2;
             (dresult, out4) = calculate d1 d2 operator out3
         in Inr (printf ''Result: %.2f %c %.2f = %.2f\<newline>''
                   [Arg_Double (Inr d1), Arg_Char operator, Arg_Double (Inr d2),
                    Arg_Double dresult] out4, 0))
      else Inr (printf ''Invalid choice!\<newline>'' [] (menu out), 0))"

section \<open>The statistics sample: \<^verbatim>\<open>src/examples/complex_sample.c\<close>\<close>


definition THRESHOLD :: real where
  "THRESHOLD = 10.5"

text \<open>The struct \<^verbatim>\<open>DataSet\<close>. The array \<open>values\<close> has \<open>MAX_SIZE\<close> elements.\<close>

record DataSet =
  id_c :: c_int
  "values" :: "double list"
  average :: double
  variance :: double

subsection \<open>\<^verbatim>\<open>calculate_mean\<close>\<close>

text \<open>The loop \<^verbatim>\<open>for (i = 0; i < n; i++) sum += arr[i]\<close>, from any \<open>i\<close> and \<open>sum\<close>.\<close>

function mean_loop :: "double list \<Rightarrow> c_int \<Rightarrow> c_int \<Rightarrow> double \<Rightarrow> fault + double" where
  "mean_loop arr n i sum_c =
     (if i <s n
      then (case array_read arr i of
              Inl e \<Rightarrow> Inl e
            | Inr x \<Rightarrow> mean_loop arr n (i + 1) (fadd sum_c x))
      else Inr sum_c)"
  by pat_completeness auto
termination
proof (relation "measure (\<lambda>(arr, n, i, sum_c). nat (sint n - sint i))")
  show "wf (measure (\<lambda>(arr :: double list, n :: c_int, i :: c_int, sum_c :: double).
    nat (sint n - sint i)))"
    by simp
next
  fix arr :: "double list" and n i :: c_int and sum_c :: double
  assume "i <s n"
  then have less: "sint i < sint n"
    by (simp add: word_sless_alt)
  have "sint (word_of_int m :: c_int) = m" if "- 2147483648 \<le> m" and "m < 2147483648" for m
    using that by (simp add: sint_sbintrunc' signed_take_bit_int_eq_self)
  from this [of "sint i + 1"] have "sint (i + 1) = sint i + 1"
    using less sint_ge [of i] sint_lt [of n] by simp
  then show "((arr, n, i + 1, fadd sum_c x), (arr, n, i, sum_c))
      \<in> measure (\<lambda>(arr, n, i, sum_c). nat (sint n - sint i))" for x
    using less by simp
qed

declare mean_loop.simps [simp del]

text \<open>\<^verbatim>\<open>return sum / n\<close>: \<open>n\<close> is converted to \<^verbatim>\<open>double\<close>.\<close>

definition calculate_mean :: "double list \<Rightarrow> c_int \<Rightarrow> fault + double" where
  "calculate_mean arr n =
     (case mean_loop arr n 0 (Finite 0.0) of
        Inl e \<Rightarrow> Inl e
      | Inr sum_c \<Rightarrow> Inr (fdiv sum_c (double_of_int n)))"

subsection \<open>\<^verbatim>\<open>calculate_variance\<close>\<close>

function variance_loop ::
  "double list \<Rightarrow> c_int \<Rightarrow> double \<Rightarrow> c_int \<Rightarrow> double \<Rightarrow> fault + double" where
  "variance_loop arr n mean j sum_sq_diff =
     (if j <s n
      then (case array_read arr j of
              Inl e \<Rightarrow> Inl e
            | Inr x \<Rightarrow>
                (let diff = fsub x mean
                 in variance_loop arr n mean (j + 1) (fadd sum_sq_diff (pow_double diff 2))))
      else Inr sum_sq_diff)"
  by pat_completeness auto
termination
proof (relation "measure (\<lambda>(arr, n, mean, j, sum_sq_diff). nat (sint n - sint j))")
  show "wf (measure (\<lambda>(arr :: double list, n :: c_int, mean :: double, j :: c_int,
    sum_sq_diff :: double). nat (sint n - sint j)))"
    by simp
next
  fix arr :: "double list" and n j :: c_int and mean sum_sq_diff :: double
  assume "j <s n"
  then have less: "sint j < sint n"
    by (simp add: word_sless_alt)
  have "sint (word_of_int m :: c_int) = m" if "- 2147483648 \<le> m" and "m < 2147483648" for m
    using that by (simp add: sint_sbintrunc' signed_take_bit_int_eq_self)
  from this [of "sint j + 1"] have "sint (j + 1) = sint j + 1"
    using less sint_ge [of j] sint_lt [of n] by simp
  then show "((arr, n, mean, j + 1, s), (arr, n, mean, j, sum_sq_diff))
      \<in> measure (\<lambda>(arr, n, mean, j, sum_sq_diff). nat (sint n - sint j))" for s
    using less by simp
qed

declare variance_loop.simps [simp del]

text \<open>\<^verbatim>\<open>return sum_sq_diff / (n - 1)\<close>: the difference is the 32-bit one, converted to
  \<^verbatim>\<open>double\<close>.\<close>

definition calculate_variance :: "double list \<Rightarrow> c_int \<Rightarrow> double \<Rightarrow> fault + double" where
  "calculate_variance arr n mean =
     (case variance_loop arr n mean 0 (Finite 0.0) of
        Inl e \<Rightarrow> Inl e
      | Inr sum_sq_diff \<Rightarrow> Inr (fdiv sum_sq_diff (double_of_int (n - 1))))"

subsection \<open>\<^verbatim>\<open>process_data\<close>\<close>

text \<open>The selection on the threshold that ends \<^verbatim>\<open>process_data\<close> (lines 52 to 56), which
  the spec names the classification.\<close>

definition classification :: "double \<Rightarrow> stdout \<Rightarrow> stdout" where
  "classification v out =
     (if fgt v (literal THRESHOLD) then printf ''Stato: Alta variabilita' rilevata.\<newline>'' [] out
      else printf ''Stato: Variabilita' nella norma.\<newline>'' [] out)"

definition process_data :: "DataSet \<Rightarrow> c_int \<Rightarrow> stdout \<Rightarrow> fault + DataSet \<times> stdout" where
  "process_data data count out =
     (if count \<le>s 1
      then Inr (data, printf ''Errore: Dati insufficienti per l'analisi statistica.\<newline>'' [] out)
      else
        (case calculate_mean (values data) count of
           Inl e \<Rightarrow> Inl e
         | Inr m \<Rightarrow>
             (let data1 = data\<lparr>average := m\<rparr> in
              case calculate_variance (values data1) count (average data1) of
                Inl e \<Rightarrow> Inl e
              | Inr v \<Rightarrow>
                  (let data2 = data1\<lparr>variance := v\<rparr>;
                       out1 = printf ''Analisi ID: %d\<newline>'' [Arg_Int (id_c data2)] out;
                       out2 = printf ''Media Calcolata: %.4f\<newline>''
                                [Arg_Binary64 (average data2)] out1;
                       out3 = printf ''Varianza: %.4f\<newline>''
                                [Arg_Binary64 (variance data2)] out2
                   in Inr (data2, classification (variance data2) out3)))))"

subsection \<open>\<^verbatim>\<open>main\<close>\<close>




section \<open>The sums of the spec, in double arithmetic\<close>

text \<open>
  The spec's words for the two loops, to compare them with: the sum of a list, added
  from the left onto \<open>s\<close>, every addition rounded; and the sum of the squared deviations
  from \<open>mean\<close>, every difference, square and addition rounded.
\<close>

fun rounded_sum :: "double list \<Rightarrow> double \<Rightarrow> double" where
  "rounded_sum [] s = s"
| "rounded_sum (x # xs) s = rounded_sum xs (fadd s x)"

fun rounded_sum_sq :: "double \<Rightarrow> double list \<Rightarrow> double \<Rightarrow> double" where
  "rounded_sum_sq mean [] s = s"
| "rounded_sum_sq mean (x # xs) s =
     rounded_sum_sq mean xs (fadd s (pow_double (fsub x mean) 2))"

section \<open>A divisor check used in the proofs\<close>

text \<open>
  Not part of the programs: a check, by evaluation, that \<open>62 * k + 1\<close> divides
  2147483647 for no \<open>k\<close> from \<open>m\<close> to \<open>e\<close>. It serves to prove that the largest \<^verbatim>\<open>int\<close> is a
  prime number.
\<close>

function no_factor_62 :: "int \<Rightarrow> int \<Rightarrow> bool" where
  "no_factor_62 m e =
     (if e < m then True
      else (2147483647 :: int) mod (62 * m + 1) \<noteq> 0 \<and> no_factor_62 (m + 1) e)"
  by pat_completeness auto
termination
  by (relation "measure (\<lambda>(m, e). nat (e + 1 - m))") auto

declare no_factor_62.simps [simp del]

section \<open>Properties of the values\<close>

subsection \<open>Signed reading of 32-bit words\<close>

lemma sint_c_int_bounds: "- 2147483648 \<le> sint (w :: c_int) \<and> sint w \<le> 2147483647"
  using sint_ge [of w] sint_lt [of w] by simp

lemma sint_word_of_int_c_int:
  "- 2147483648 \<le> k \<Longrightarrow> k \<le> 2147483647 \<Longrightarrow> sint (word_of_int k :: c_int) = k"
  by (simp add: sint_sbintrunc' signed_take_bit_int_eq_self)

lemma sint_incr: "sint i < 2147483647 \<Longrightarrow> sint (i + 1 :: c_int) = sint i + 1"
  using sint_word_of_int_c_int [of "sint i + 1"] sint_c_int_bounds [of i] by simp

lemma sint_decr: "- 2147483648 < sint i \<Longrightarrow> sint (i - 1 :: c_int) = sint i - 1"
  using sint_word_of_int_c_int [of "sint i - 1"] sint_c_int_bounds [of i] by simp

lemma sint_of_nat_c_int: "m \<le> 2147483647 \<Longrightarrow> sint (of_nat m :: c_int) = int m"
  using sint_word_of_int_c_int [of "int m"] by simp

subsection \<open>Rounding to double\<close>

lemma round_half_even_nearest:
  assumes "\<bar>y - of_int m\<bar> < 1 / 2"
  shows "round_half_even y = m"
proof (cases "of_int m \<le> y")
  case True
  with assms have "\<lfloor>y\<rfloor> = m"
    by (intro floor_unique) auto
  with assms True show ?thesis
    by (simp add: round_half_even_def)
next
  case False
  with assms have fl: "\<lfloor>y\<rfloor> = m - 1"
    by (intro floor_unique) auto
  with assms False have "1 / 2 < y - of_int \<lfloor>y\<rfloor>"
    by simp
  with fl show ?thesis
    by (simp add: round_half_even_def Let_def)
qed

lemma round_half_even_tie:
  assumes "\<bar>y - of_int m\<bar> = 1 / 2" and "even m"
  shows "round_half_even y = m"
proof (cases "of_int m \<le> y")
  case True
  with assms(1) have y: "y = of_int m + 1 / 2"
    by simp
  then have "\<lfloor>y\<rfloor> = m"
    by linarith
  with assms(2) y show ?thesis
    by (simp add: round_half_even_def Let_def)
next
  case False
  with assms(1) have y: "y = of_int (m - 1) + 1 / 2"
    by simp
  then have "\<lfloor>y\<rfloor> = m - 1"
    by linarith
  with assms(2) y show ?thesis
    by (simp add: round_half_even_def Let_def)
qed

lemma round_half_even_of_int: "round_half_even (of_int m) = m"
  by (rule round_half_even_nearest) simp

lemma floor_log2_eq:
  assumes "2 powi e \<le> \<bar>x\<bar>" and "\<bar>x\<bar> < 2 powi (e + 1)"
  shows "\<lfloor>log 2 \<bar>x\<bar>\<rfloor> = e"
proof -
  have "(0 :: real) < 2 powi e"
    by simp
  then have pos: "0 < \<bar>x\<bar>"
    using assms(1) by linarith
  have "(2 :: real) powr of_int e = 2 powi e"
    by (simp add: powr_real_of_int')
  moreover have "(2 :: real) powr (of_int e + 1) = 2 powi (e + 1)"
    using powr_real_of_int' [of 2 "e + 1"] by simp
  ultimately have "(2 :: real) powr of_int e \<le> \<bar>x\<bar>" "\<bar>x\<bar> < (2 :: real) powr (of_int e + 1)"
    using assms by simp_all
  then show ?thesis
    using pos by (simp add: floor_log_eq_powr_iff)
qed

text \<open>
  How a rounding is checked: with the binary exponent \<open>e\<close> of \<open>x\<close> and the integer \<open>m\<close>
  nearest to \<open>x\<close> in units of the quantum, the result is \<open>m\<close> quanta.
\<close>

lemma round_double_nearest:
  assumes "2 powi e \<le> \<bar>x\<bar>" and "\<bar>x\<bar> < 2 powi (e + 1)" and "- 1022 \<le> e"
    and "\<bar>x / 2 powi (e - 52) - of_int m\<bar> < 1 / 2"
  shows "round_double x = of_int m * 2 powi (e - 52)"
proof -
  have "(0 :: real) < 2 powi e"
    by simp
  then have "0 < \<bar>x\<bar>"
    using assms(1) by linarith
  then have "x \<noteq> 0"
    by simp
  moreover have "quantum x = 2 powi (e - 52)"
    using floor_log2_eq [OF assms(1,2)] assms(3) by (simp add: quantum_def)
  ultimately show ?thesis
    using round_half_even_nearest [OF assms(4)] by (simp add: round_double_def)
qed

lemma to_double_nearest:
  assumes "2 powi e \<le> \<bar>x\<bar>" and "\<bar>x\<bar> < 2 powi (e + 1)" and "- 1022 \<le> e"
    and "\<bar>x / 2 powi (e - 52) - of_int m\<bar> < 1 / 2"
    and "\<bar>of_int m * 2 powi (e - 52) :: real\<bar> < 2 ^ 1024"
  shows "to_double x = Finite (of_int m * 2 powi (e - 52))"
  using round_double_nearest [OF assms(1-4)] assms(5) by (simp add: to_double_def)

text \<open>The same for a number halfway between two doubles: the even one is taken.\<close>

lemma to_double_tie:
  assumes "2 powi e \<le> \<bar>x\<bar>" and "\<bar>x\<bar> < 2 powi (e + 1)" and "- 1022 \<le> e"
    and "\<bar>x / 2 powi (e - 52) - of_int m\<bar> = 1 / 2" and "even m"
    and "\<bar>of_int m * 2 powi (e - 52) :: real\<bar> < 2 ^ 1024"
  shows "to_double x = Finite (of_int m * 2 powi (e - 52))"
proof -
  have "(0 :: real) < 2 powi e"
    by simp
  then have "0 < \<bar>x\<bar>"
    using assms(1) by linarith
  then have "x \<noteq> 0"
    by simp
  moreover have "quantum x = 2 powi (e - 52)"
    using floor_log2_eq [OF assms(1,2)] assms(3) by (simp add: quantum_def)
  ultimately have "round_double x = of_int m * 2 powi (e - 52)"
    using round_half_even_tie [OF assms(4,5)] by (simp add: round_double_def)
  then show ?thesis
    using assms(6) by (simp add: to_double_def)
qed

text \<open>And for a number whose nearest double would be beyond the largest finite one.\<close>

lemma to_double_overflow:
  assumes "2 powi e \<le> \<bar>x\<bar>" and "\<bar>x\<bar> < 2 powi (e + 1)" and "- 1022 \<le> e"
    and "\<bar>x / 2 powi (e - 52) - of_int m\<bar> < 1 / 2"
    and "2 ^ 1024 \<le> \<bar>of_int m * 2 powi (e - 52) :: real\<bar>"
  shows "to_double x = (if 0 < x then PInf else MInf)"
  using round_double_nearest [OF assms(1-4)] assms(5) by (simp add: to_double_def)

lemma to_double_0: "to_double 0 = Finite 0"
  by (simp add: to_double_def round_double_def)

text \<open>A number of at most 53 significant bits, in units not below the smallest quantum, is
  a double: rounding leaves it as it is.\<close>

lemma round_double_dyadic:
  assumes "\<bar>m\<bar> < 2 ^ 53" and "- 1074 \<le> j"
  shows "round_double (of_int m * 2 powi j) = of_int m * 2 powi j"
proof (cases "m = 0")
  case True
  then show ?thesis
    by (simp add: round_double_def)
next
  case False
  let ?x = "of_int m * 2 powi j :: real"
  let ?k = "max \<lfloor>log 2 \<bar>?x\<bar>\<rfloor> (- 1022) - 52"
  have nz: "?x \<noteq> 0"
    using False by simp
  have "\<bar>?x\<bar> = of_int \<bar>m\<bar> * 2 powi j"
    by (simp add: abs_mult)
  also have "\<dots> < 2 ^ 53 * 2 powi j"
    using assms(1) by (intro mult_strict_right_mono) (simp_all flip: of_int_less_iff [where 'a = real])
  also have "\<dots> = 2 powi (53 + j)"
    by (simp add: power_int_add)
  also have "\<dots> = 2 powr (53 + of_int j)"
    using powr_real_of_int' [of 2 "53 + j"] by simp
  finally have "log 2 \<bar>?x\<bar> < 53 + of_int j"
    using nz by (subst log_less_iff) simp_all
  then have "\<lfloor>log 2 \<bar>?x\<bar>\<rfloor> < 53 + j"
    by (simp add: floor_less_iff)
  with assms(2) have le: "?k \<le> j"
    by simp
  define n where "n = nat (j - ?k)"
  have j: "j = ?k + int n"
    using le by (simp add: n_def)
  have "?x / quantum ?x = of_int m * (2 powi j / 2 powi ?k)"
    by (simp add: quantum_def)
  also have "2 powi j / 2 powi ?k = (2 :: real) ^ n"
    by (subst j) (simp add: power_int_add)
  finally have "?x / quantum ?x = of_int (m * 2 ^ n)"
    by simp
  then have "round_half_even (?x / quantum ?x) = m * 2 ^ n"
    by (simp only: round_half_even_of_int)
  then have "round_double ?x = of_int (m * 2 ^ n) * quantum ?x"
    using nz by (simp add: round_double_def)
  also have "\<dots> = of_int m * (2 ^ n * 2 powi ?k)"
    by (simp add: quantum_def)
  also have "(2 :: real) ^ n * 2 powi ?k = 2 powi j"
    by (subst j) (simp add: power_int_add)
  finally show ?thesis .
qed

lemma to_double_dyadic:
  assumes "\<bar>m\<bar> < 2 ^ 53" and "- 1074 \<le> j" and "j \<le> 971"
  shows "to_double (of_int m * 2 powi j) = Finite (of_int m * 2 powi j)"
proof -
  have "\<bar>of_int m * 2 powi j :: real\<bar> = of_int \<bar>m\<bar> * 2 powi j"
    by (simp add: abs_mult)
  also have "\<dots> < 2 ^ 53 * 2 powi j"
    using assms(1) by (intro mult_strict_right_mono) (simp_all flip: of_int_less_iff [where 'a = real])
  also have "\<dots> \<le> 2 ^ 53 * 2 powi 971"
    using assms(3) by (intro mult_left_mono power_int_increasing) simp_all
  also have "\<dots> = 2 ^ 1024"
    by simp
  finally have "\<bar>of_int m * 2 powi j :: real\<bar> < 2 ^ 1024" .
  then show ?thesis
    using round_double_dyadic [OF assms(1,2)] by (simp add: to_double_def)
qed

lemma to_double_of_int: "\<bar>m\<bar> < 2 ^ 53 \<Longrightarrow> to_double (of_int m) = Finite (of_int m)"
  using to_double_dyadic [of m 0] by simp




lemma is_double_of_int: "\<bar>m\<bar> < 2 ^ 53 \<Longrightarrow> is_double (of_int m)"
  by (simp add: is_double_def to_double_of_int)

lemma pow_square: "pow x 2 = Inr (x\<^sup>2)"
proof -
  have "\<lfloor>2 :: real\<rfloor> = 2" by simp
  then show ?thesis
    by (simp add: pow_def power_int_def)
qed

lemma pow_double_square: "pow_double (Finite x) 2 = to_double (x\<^sup>2)"
  by (simp add: pow_double_def pow_square)

section \<open>Properties of the calculator\<close>

subsection \<open>\<^verbatim>\<open>factorial\<close>\<close>

lemma factorial_base: "n \<le>s 1 \<Longrightarrow> factorial (Suc frames) n = Inr 1"
  by simp

lemma factorial_step:
  "\<not> n \<le>s 1 \<Longrightarrow> factorial frames (n - 1) = Inr p \<Longrightarrow> factorial (Suc frames) n = Inr (n * p)"
  by simp

text \<open>Total, given the stack: with a frame for each of the nested calls, \<open>factorial\<close>
  returns a value for every \<^verbatim>\<open>int\<close>.\<close>

lemma factorial_returns:
  "max 1 (nat (sint n)) \<le> frames \<Longrightarrow> \<exists>r. factorial frames n = Inr r"
proof (induction frames arbitrary: n)
  case 0
  then show ?case
    by simp
next
  case (Suc frames)
  show ?case
  proof (cases "n \<le>s 1")
    case True
    then show ?thesis
      by simp
  next
    case False
    then have big: "1 < sint n"
      by (simp add: word_sle_eq)
    then have "sint (n - 1) = sint n - 1"
      by (intro sint_decr) simp
    with big Suc.prems have "max 1 (nat (sint (n - 1))) \<le> frames"
      by simp
    then obtain p where "factorial frames (n - 1) = Inr p"
      using Suc.IH by blast
    with False show ?thesis
      by simp
  qed
qed

text \<open>With fewer frames than nested calls, the stack overflows.\<close>

lemma factorial_stack_overflow:
  "frames < nat (sint n) \<Longrightarrow> factorial frames n = Inl Stack_Overflow"
proof (induction frames arbitrary: n)
  case 0
  then show ?case
    by simp
next
  case (Suc frames)
  then have big: "1 < sint n"
    by simp
  then have "sint (n - 1) = sint n - 1"
    by (intro sint_decr) simp
  with Suc.prems have "frames < nat (sint (n - 1))"
    by simp
  then have "factorial frames (n - 1) = Inl Stack_Overflow"
    by (rule Suc.IH)
  with big show ?case
    by (simp add: word_sle_eq)
qed

text \<open>Up to 12 the result is the factorial of the natural numbers.\<close>

lemma factorial_of_nat:
  "k \<le> 12 \<Longrightarrow> max 1 k \<le> frames \<Longrightarrow> factorial frames (of_nat k) = Inr (of_nat (fact k))"
proof (induction k arbitrary: frames)
  case 0
  then obtain f where "frames = Suc f"
    by (cases frames) auto
  then show ?case
    by (simp add: word_sle_eq)
next
  case (Suc k)
  then obtain f where frames: "frames = Suc f"
    by (cases frames) auto
  show ?case
  proof (cases "k = 0")
    case True
    with frames show ?thesis
      by (simp add: word_sle_eq)
  next
    case False
    have "sint (word_of_int (int (Suc k)) :: c_int) = int (Suc k)"
      using Suc.prems by (intro sint_word_of_int_c_int) auto
    then have step: "\<not> (of_nat (Suc k) :: c_int) \<le>s 1"
      using False by (simp add: word_sle_eq)
    have "(of_nat (Suc k) :: c_int) - 1 = of_nat k"
      by simp
    moreover have "factorial f (of_nat k) = Inr (of_nat (fact k))"
      using Suc.prems frames False by (intro Suc.IH) auto
    ultimately have "factorial f (of_nat (Suc k) - 1) = Inr (of_nat (fact k))"
      by simp
    with step have "factorial (Suc f) (of_nat (Suc k)) = Inr (of_nat (Suc k) * of_nat (fact k))"
      by (rule factorial_step)
    then show ?thesis
      by (simp add: frames algebra_simps)
  qed
qed

lemma fact_12_bound: "k \<le> 12 \<Longrightarrow> fact k \<le> (479001600 :: nat)"
proof -
  assume "k \<le> 12"
  then have "fact k \<le> (fact 12 :: nat)" by (rule fact_mono)
  also have "(fact 12 :: nat) = 479001600" by (simp add: fact_numeral)
  finally show ?thesis .
qed

lemma factorial_eq_fact:
  assumes "0 \<le> sint n" and "sint n \<le> 12" and "max 1 (nat (sint n)) \<le> frames"
  shows "\<exists>r. factorial frames n = Inr r \<and> sint r = int (fact (nat (sint n)))"
proof -
  let ?k = "nat (sint n)"
  have k: "?k \<le> 12" using assms by simp
  have "(of_nat ?k :: c_int) = word_of_int (int ?k)" by simp
  also have "int ?k = sint n" using assms by simp
  finally have "of_nat ?k = n" by simp
  then have "factorial frames n = Inr (of_nat (fact ?k))"
    using factorial_of_nat [OF k assms(3)] by simp
  moreover have "sint (of_nat (fact ?k) :: c_int) = int (fact ?k)"
    using fact_12_bound [OF k] by (intro sint_of_nat_c_int) simp
  ultimately show ?thesis
    by blast
qed

text \<open>
  From 13 on the product no longer fits 32 bits and the result is the factorial modulo
  \<open>2^32\<close>.
\<close>

lemma factorial_values:
  "factorial 1 0 = Inr 1"
  "factorial 1 1 = Inr 1"
  "factorial 4 4 = Inr 24"
  "factorial 5 4 = Inr 24"
  "factorial 5 5 = Inr 120"
  "factorial 12 12 = Inr 479001600"
  "factorial 13 12 = Inr 479001600"
  using factorial_of_nat [of 0 1] factorial_of_nat [of 1 1] factorial_of_nat [of 4 4]
    factorial_of_nat [of 4 5] factorial_of_nat [of 5 5] factorial_of_nat [of 12 12]
    factorial_of_nat [of 12 13]
  by (simp_all add: fact_numeral)

lemma factorial_13: "factorial 13 13 = Inr 1932053504"
proof -
  have "\<not> (13 :: c_int) \<le>s 1"
    by (simp add: word_sle_eq)
  moreover have "factorial 12 (13 - 1) = Inr 479001600"
    using factorial_values(6) by simp
  ultimately have "factorial (Suc 12) 13 = Inr (13 * 479001600)"
    by (rule factorial_step)
  then show ?thesis
    by simp
qed

text \<open>
  Claim C2, as stated, fails from 13 on: \<open>factorial 13\<close> is 1932053504, which is not 13
  times \<open>factorial 12\<close>.
\<close>

theorem factorial_13_counterexample:
  "factorial 13 13 = Inr 1932053504 \<and> factorial 13 12 = Inr 479001600 \<and>
   sint (1932053504 :: c_int) \<noteq> 13 * sint (479001600 :: c_int)"
  using factorial_13 factorial_values(7) by simp

text \<open>
  Claim C2, amended. For every \<open>n\<close> from 0 to 12, \<open>factorial n\<close> satisfies the recursive
  definition over the integers: it is 1 for \<open>n \<le> 1\<close> and \<open>n\<close> times \<open>factorial (n - 1)\<close>
  otherwise, which makes it the factorial of \<open>n\<close>. In particular \<open>factorial 0 = 1\<close>,
  \<open>factorial 1 = 1\<close> and \<open>factorial 5 = 120\<close>. (The stack holds the frames of the nested
  calls.)
\<close>

theorem factorial_recursive_definition:
  "(0 \<le>s n \<and> sint n \<le> 12 \<and> max 1 (nat (sint n)) \<le> frames \<longrightarrow>
      (\<exists>r. factorial frames n = Inr r \<and>
           sint r = int (fact (nat (sint n))) \<and>
           (n \<le>s 1 \<longrightarrow> sint r = 1) \<and>
           (\<not> n \<le>s 1 \<longrightarrow>
              (\<exists>p. factorial frames (n - 1) = Inr p \<and> sint r = sint n * sint p)))) \<and>
   factorial 1 0 = Inr 1 \<and> factorial 1 1 = Inr 1 \<and> factorial 5 5 = Inr 120"
proof (intro conjI impI)
  assume range: "0 \<le>s n \<and> sint n \<le> 12 \<and> max 1 (nat (sint n)) \<le> frames"
  then have n: "0 \<le> sint n" "sint n \<le> 12" "max 1 (nat (sint n)) \<le> frames"
    by (simp_all add: word_sle_eq)
  from factorial_eq_fact [OF n]
  obtain r where r: "factorial frames n = Inr r" "sint r = int (fact (nat (sint n)))"
    by blast
  have base: "sint r = 1" if "n \<le>s 1"
  proof -
    from that n(1) have "nat (sint n) = 0 \<or> nat (sint n) = 1"
      by (auto simp: word_sle_eq)
    with r(2) show ?thesis
      by auto
  qed
  have step: "\<exists>p. factorial frames (n - 1) = Inr p \<and> sint r = sint n * sint p"
    if "\<not> n \<le>s 1"
  proof -
    from that have big: "1 < sint n"
      by (simp add: word_sle_eq)
    then have dec: "sint (n - 1) = sint n - 1"
      by (intro sint_decr) simp
    have "\<exists>p. factorial frames (n - 1) = Inr p \<and> sint p = int (fact (nat (sint (n - 1))))"
      using n big dec by (intro factorial_eq_fact) auto
    then obtain p where p: "factorial frames (n - 1) = Inr p"
      "sint p = int (fact (nat (sint (n - 1))))"
      by blast
    have "nat (sint n) = Suc (nat (sint n - 1))"
      using big by simp
    then have "fact (nat (sint n)) = nat (sint n) * fact (nat (sint n - 1))"
      by (simp only: fact_Suc of_nat_id)
    then have "sint r = sint n * sint p"
      using r(2) p(2) dec big by simp
    with p(1) show ?thesis
      by blast
  qed
  from r base step
  show "\<exists>r. factorial frames n = Inr r \<and>
           sint r = int (fact (nat (sint n))) \<and>
           (n \<le>s 1 \<longrightarrow> sint r = 1) \<and>
           (\<not> n \<le>s 1 \<longrightarrow>
              (\<exists>p. factorial frames (n - 1) = Inr p \<and> sint r = sint n * sint p))"
    by blast
qed (simp_all add: factorial_values word_sle_eq)

theorem factorial_recursive_definition_witness:
  "0 \<le>s (5 :: c_int) \<and> sint (5 :: c_int) \<le> 12 \<and> max 1 (nat (sint (5 :: c_int))) \<le> (5 :: nat) \<and>
   \<not> (5 :: c_int) \<le>s 1 \<and>
   factorial 5 5 = Inr 120 \<and> factorial 5 (5 - 1) = Inr 24 \<and>
   sint (120 :: c_int) = sint (5 :: c_int) * sint (24 :: c_int) \<and>
   sint (120 :: c_int) = int (fact (nat (sint (5 :: c_int))))"
  using factorial_recursive_definition [of 5 5] factorial_values(4,5)
  by (simp add: word_sle_eq fact_numeral)

lemma factorial_negative: "n <s 0 \<Longrightarrow> factorial (Suc frames) n = Inr 1"
  by (simp add: word_sle_eq word_sless_alt)

text \<open>With too few frames there is no result, with enough frames there is one.\<close>

lemma factorial_returns_iff:
  "(\<exists>r. factorial frames n = Inr r) = (max 1 (nat (sint n)) \<le> frames)"
proof
  assume result: "\<exists>r. factorial frames n = Inr r"
  show "max 1 (nat (sint n)) \<le> frames"
  proof (rule ccontr)
    assume "\<not> max 1 (nat (sint n)) \<le> frames"
    then have "frames = 0 \<or> frames < nat (sint n)"
      by auto
    then have "factorial frames n = Inl Stack_Overflow"
      using factorial_stack_overflow [of frames n] by auto
    with result show False
      by simp
  qed
next
  assume "max 1 (nat (sint n)) \<le> frames"
  then show "\<exists>r. factorial frames n = Inr r"
    by (rule factorial_returns)
qed

text \<open>
  Claim C10, as stated, fails on a stack that is bounded: the recursion is not a tail
  call, and \<open>factorial n\<close> needs \<open>n\<close> frames at once. A stack of 8 MiB holds at most
  524288 frames of 16 bytes: on it \<open>factorial 524289\<close> overflows the stack, while one
  more frame would let it return. So the function is not total over all \<^verbatim>\<open>int\<close>.
\<close>

theorem factorial_stack_counterexample:
  "factorial 524288 524289 = Inl Stack_Overflow \<and> (\<exists>r. factorial 524289 524289 = Inr r)"
  using factorial_stack_overflow [of 524288 524289] factorial_returns [of 524289 524289]
  by simp

text \<open>
  Claim C10, amended. For every negative \<open>n\<close>, \<open>factorial n\<close> returns 1: the base case
  \<open>n \<le> 1\<close> covers all negative inputs, in the first frame, and the value is neither
  negative nor undefined. For every \<^verbatim>\<open>int\<close> \<open>n\<close> the function returns a value exactly
  when the stack holds the frames of its nested calls, \<open>n\<close> of them and at least one:
  it is total over all \<^verbatim>\<open>int\<close> on a stack that has room for them, and on no other.
  The error for a negative input is reported by the caller only: \<^verbatim>\<open>main\<close> prints it
  without calling \<open>factorial\<close> (it does so even with no frame left), and for every
  other input it prints what \<open>factorial\<close> returns, which prints nothing itself.
\<close>

theorem factorial_negative_input:
  "(n <s 0 \<longrightarrow> factorial (Suc frames) n = Inr 1 \<and> 0 <s (1 :: c_int)) \<and>
   ((\<exists>r. factorial frames n = Inr r) = (max 1 (nat (sint n)) \<le> frames)) \<and>
   (n <s 0 \<longrightarrow>
      example_main frames 1 n d1 operator d2 out =
        Inr (printf ''Error: Factorial of negative number is undefined.\<newline>'' []
               (printf ''Enter a number: '' [] (menu out)), 0)) \<and>
   (\<not> n <s 0 \<and> max 1 (nat (sint n)) \<le> frames \<longrightarrow>
      (\<exists>r. factorial frames n = Inr r \<and>
         example_main frames 1 n d1 operator d2 out =
           Inr (printf ''Factorial of %d is %d\<newline>'' [Arg_Int n, Arg_Int r]
                  (printf ''Enter a number: '' [] (menu out)), 0))) \<and>
   (\<not> n <s 0 \<and> frames < max 1 (nat (sint n)) \<longrightarrow>
      example_main frames 1 n d1 operator d2 out = Inl Stack_Overflow)"
proof (intro conjI impI)
  assume "n <s 0"
  then show "factorial (Suc frames) n = Inr 1"
    by (rule factorial_negative)
next
  show "0 <s (1 :: c_int)"
    by (simp add: word_sless_alt)
next
  show "(\<exists>r. factorial frames n = Inr r) = (max 1 (nat (sint n)) \<le> frames)"
    by (rule factorial_returns_iff)
next
  assume "n <s 0"
  then show "example_main frames 1 n d1 operator d2 out =
        Inr (printf ''Error: Factorial of negative number is undefined.\<newline>'' []
               (printf ''Enter a number: '' [] (menu out)), 0)"
    by (simp add: example_main_def)
next
  assume a: "\<not> n <s 0 \<and> max 1 (nat (sint n)) \<le> frames"
  then obtain r where "factorial frames n = Inr r"
    using factorial_returns by blast
  with a show "\<exists>r. factorial frames n = Inr r \<and>
         example_main frames 1 n d1 operator d2 out =
           Inr (printf ''Factorial of %d is %d\<newline>'' [Arg_Int n, Arg_Int r]
                  (printf ''Enter a number: '' [] (menu out)), 0)"
    by (simp add: example_main_def)
next
  assume a: "\<not> n <s 0 \<and> frames < max 1 (nat (sint n))"
  then have "frames = 0 \<or> frames < nat (sint n)"
    by auto
  then have "factorial frames n = Inl Stack_Overflow"
    using factorial_stack_overflow [of frames n] by auto
  with a show "example_main frames 1 n d1 operator d2 out = Inl Stack_Overflow"
    by (simp add: example_main_def)
qed

theorem factorial_negative_input_witness:
  "(- 3 :: c_int) <s 0 \<and> factorial (Suc 0) (- 3) = Inr 1 \<and>
   example_main 0 1 (- 3) 0 CHR ''+'' 0 [] =
     Inr (printf ''Error: Factorial of negative number is undefined.\<newline>'' []
            (printf ''Enter a number: '' [] (menu [])), 0) \<and>
   \<not> (4 :: c_int) <s 0 \<and> max 1 (nat (sint (4 :: c_int))) \<le> (4 :: nat) \<and>
   factorial 4 4 = Inr 24 \<and>
   example_main 4 1 4 0 CHR ''+'' 0 [] =
     Inr (printf ''Factorial of %d is %d\<newline>'' [Arg_Int 4, Arg_Int 24]
            (printf ''Enter a number: '' [] (menu [])), 0) \<and>
   (3 :: nat) < max 1 (nat (sint (4 :: c_int))) \<and>
   example_main 3 1 4 0 CHR ''+'' 0 [] = Inl Stack_Overflow"
proof -
  have four: "factorial 4 4 = Inr 24"
    by (rule factorial_values)
  note negative = factorial_negative_input [of "- 3" 0 0 "CHR ''+''" 0 "[]"]
  note other = factorial_negative_input [of 4 4 0 "CHR ''+''" 0 "[]"]
  note short = factorial_negative_input [of 4 3 0 "CHR ''+''" 0 "[]"]
  show ?thesis
    using negative other four
      short [THEN conjunct2, THEN conjunct2, THEN conjunct2, THEN conjunct2]
    by (simp add: word_sless_alt)
qed
subsection \<open>\<^verbatim>\<open>calculate\<close>\<close>

text \<open>
  Claim C4. For every \<open>a\<close> and \<open>b\<close>, \<open>calculate a 0 '/'\<close> reports the division by zero and
  returns the sentinel 0, and \<open>calculate a b op\<close> for an operator outside
  \<open>{+, -, *, /, ^}\<close> reports the invalid operator and returns the sentinel 0. The
  process does not fail: \<^verbatim>\<open>main\<close> prints the result line with the sentinel and exits
  with code 0.
\<close>

theorem calculate_error_sentinel:
  "calculate a 0 CHR ''/'' out = (Inr 0, out @ [(''Error: Division by zero!\<newline>'', [])]) \<and>
   (op \<notin> {CHR ''+'', CHR ''-'', CHR ''*'', CHR ''/'', CHR ''^''} \<longrightarrow>
      calculate a b op out = (Inr 0, out @ [(''Error: Invalid operator!\<newline>'', [])])) \<and>
   example_main frames 3 num1 a CHR ''/'' 0 out =
     Inr (printf ''Result: %.2f %c %.2f = %.2f\<newline>''
            [Arg_Double (Inr a), Arg_Char CHR ''/'', Arg_Double (Inr 0), Arg_Double (Inr 0)]
            (printf ''Error: Division by zero!\<newline>'' []
              (printf ''Enter second number: '' []
                (printf ''Enter operator (+, -, *, /, ^): '' []
                  (printf ''Enter first number: '' [] (menu out))))), 0)"
  by (simp add: calculate_def example_main_def printf_def)

theorem calculate_error_sentinel_witness:
  "CHR ''%'' \<notin> {CHR ''+'', CHR ''-'', CHR ''*'', CHR ''/'', CHR ''^''} \<and>
   calculate 6 2 CHR ''%'' [] = (Inr 0, [(''Error: Invalid operator!\<newline>'', [])]) \<and>
   calculate 6 0 CHR ''/'' [] = (Inr 0, [(''Error: Division by zero!\<newline>'', [])])"
  using calculate_error_sentinel [of 6 "[]" "CHR ''%''" 2 0]
  by simp

lemma pow_2_3: "pow 2 3 = Inr 8"
  by (simp add: pow_def)

lemma pow_examples:
  "pow 2 (1 / 2) = Inr (sqrt 2)"
  "pow 2 (- 1) = Inr (1 / 2)"
  "pow (- 2) 3 = Inr (- 8)"
  "pow (- 8) (1 / 3) = Inl Domain_Error"
  "pow 0 (- 1) = Inl Pole_Error"
proof -
  show "pow 2 (1 / 2) = Inr (sqrt 2)"
    by (simp add: pow_def powr_half_sqrt)
  show "pow 2 (- 1) = Inr (1 / 2)"
    by (simp add: pow_def powr_minus inverse_eq_divide)
  have "\<lfloor>3 :: real\<rfloor> = 3" by simp
  then show "pow (- 2) 3 = Inr (- 8)"
    by (simp add: pow_def power_int_def)
  have "\<lfloor>1 / 3 :: real\<rfloor> = 0" by simp
  then show "pow (- 8) (1 / 3) = Inl Domain_Error"
    by (simp add: pow_def)
  show "pow 0 (- 1) = Inl Pole_Error"
    by (simp add: pow_def)
qed

text \<open>
  Claim C8. \<open>calculate 2 3 '^'\<close> returns 8. For every \<open>a\<close> and \<open>b\<close>, \<open>calculate a b '^'\<close>
  is \<open>pow a b\<close> and prints nothing, so it follows the domain rules of \<open>pow\<close>: a
  fractional exponent of a positive base (the square root of 2), a negative exponent
  (one half), a whole exponent of a negative base, the domain error of a negative base
  with a fractional exponent, and the pole error of zero with a negative exponent.
\<close>

theorem calculate_power:
  "calculate 2 3 CHR ''^'' out = (Inr 8, out) \<and>
   calculate a b CHR ''^'' out = (pow a b, out) \<and>
   calculate 2 (1 / 2) CHR ''^'' out = (Inr (sqrt 2), out) \<and>
   calculate 2 (- 1) CHR ''^'' out = (Inr (1 / 2), out) \<and>
   calculate (- 2) 3 CHR ''^'' out = (Inr (- 8), out) \<and>
   calculate (- 8) (1 / 3) CHR ''^'' out = (Inl Domain_Error, out) \<and>
   calculate 0 (- 1) CHR ''^'' out = (Inl Pole_Error, out)"
proof -
  have "calculate x y CHR ''^'' out = (pow x y, out)" for x y
    by (simp add: calculate_def)
  then show ?thesis
    by (simp add: pow_2_3 pow_examples)
qed

subsection \<open>\<^verbatim>\<open>is_prime\<close>\<close>

lemma c_mod_positive:
  assumes "0 \<le> sint a" and "0 < sint b"
  shows "c_mod a b = Inr (word_of_int (sint a mod sint b))"
proof -
  have "b \<noteq> 0"
    using assms(2) by auto
  moreover have "b \<noteq> - 1"
    using assms(2) by auto
  moreover have "sint a smod sint b = sint a mod sint b"
    using assms by (simp add: signed_modulo_int_def sgn_if)
  ultimately show ?thesis
    by (simp add: c_mod_def)
qed

lemma c_mod_zero_iff:
  assumes "0 \<le> sint a" and "0 < sint b"
  shows "c_mod a b = Inr 0 \<longleftrightarrow> sint b dvd sint a"
proof -
  let ?r = "sint a mod sint b"
  have range: "0 \<le> ?r" "?r < sint b"
    using assms(2) by simp_all
  then have "sint (word_of_int ?r :: c_int) = ?r"
    using sint_c_int_bounds [of b] by (intro sint_word_of_int_c_int) auto
  then have "(word_of_int ?r :: c_int) = 0 \<longleftrightarrow> ?r = 0"
    by (metis sint_0 word_of_int_0)
  then show ?thesis
    using assms by (simp add: c_mod_positive dvd_eq_mod_eq_0)
qed

lemma c_mod_cases:
  assumes "0 \<le> sint a" and "0 < sint b"
  obtains "c_mod a b = Inr 0" and "sint b dvd sint a"
  | r where "c_mod a b = Inr r" and "r \<noteq> 0" and "\<not> sint b dvd sint a"
  using c_mod_zero_iff [OF assms] c_mod_positive [OF assms] by metis

lemma sint_square:
  assumes "0 \<le> sint i" and "sint i \<le> 46340"
  shows "sint (i * i :: c_int) = sint i * sint i"
proof -
  have "sint i * sint i \<le> 46340 * 46340"
    using assms by (intro mult_mono) auto
  then have upper: "sint i * sint i \<le> 2147483647"
    by simp
  have lower: "- 2147483648 \<le> sint i * sint i"
    by (rule order_trans [OF _ zero_le_square]) simp
  have "i * i = word_of_int (sint i * sint i)"
    by simp
  then show ?thesis
    using sint_word_of_int_c_int [OF lower upper] by simp
qed

text \<open>No fault and a truth value, for every input.\<close>

lemma is_prime_loop_total:
  "2 \<le> sint i \<Longrightarrow> sint i \<le> sint num \<Longrightarrow>
   is_prime_loop num i = Inr 0 \<or> is_prime_loop num i = Inr 1"
proof (induction num i rule: is_prime_loop.induct)
  case (1 num i)
  show ?case
  proof (cases "i * i \<le>s num")
    case False
    then show ?thesis
      by (subst (1 2) is_prime_loop.simps) simp
  next
    case True
    have pos: "0 \<le> sint num" "0 < sint i"
      using "1.prems" by simp_all
    show ?thesis
    proof (cases rule: c_mod_cases [OF pos])
      case 1
      then show ?thesis
        using True by (subst (1 2) is_prime_loop.simps) simp
    next
      case (2 r)
      then have "sint i \<noteq> sint num"
        by auto
      then have less: "sint i < sint num"
        using "1.prems" by simp
      then have inc: "sint (i + 1) = sint i + 1"
        using sint_c_int_bounds [of num] by (intro sint_incr) simp
      have "is_prime_loop num (i + 1) = Inr 0 \<or> is_prime_loop num (i + 1) = Inr 1"
        using "1.prems" less inc by (intro "1.IH" [OF True 2(1) 2(2)]) auto
      moreover have "is_prime_loop num i = is_prime_loop num (i + 1)"
        using True 2 by (subst is_prime_loop.simps) simp
      ultimately show ?thesis
        by simp
    qed
  qed
qed

lemma is_prime_total: "is_prime num = Inr 0 \<or> is_prime num = Inr 1"
proof (cases "num <s 2")
  case True
  then show ?thesis
    by (simp add: is_prime_def)
next
  case False
  then have "2 \<le> sint num"
    by (simp add: word_sless_alt)
  then have "is_prime_loop num 2 = Inr 0 \<or> is_prime_loop num 2 = Inr 1"
    by (intro is_prime_loop_total) simp_all
  then show ?thesis
    using False by (simp add: is_prime_def)
qed

lemma is_prime_below_2: "num <s 2 \<Longrightarrow> is_prime num = Inr 0"
  by (simp add: is_prime_def)

text \<open>While the square fits 32 bits, the loop is the trial division.\<close>

lemma is_prime_loop_trial_division:
  "2 \<le> sint i \<Longrightarrow> (sint i - 1) * (sint i - 1) \<le> sint num \<Longrightarrow> sint num < 2147395600 \<Longrightarrow>
   is_prime_loop num i =
     Inr (if \<exists>d. sint i \<le> d \<and> d * d \<le> sint num \<and> d dvd sint num then 0 else 1)"
proof (induction num i rule: is_prime_loop.induct)
  case (1 num i)
  let ?k = "sint i" and ?n = "sint num"
  have k_max: "?k \<le> 46340"
  proof (rule ccontr)
    assume "\<not> ?k \<le> 46340"
    then have "46340 \<le> ?k - 1"
      by simp
    then have "46340 * 46340 \<le> (?k - 1) * (?k - 1)"
      by (intro mult_mono) auto
    then show False
      using "1.prems" by simp
  qed
  then have square: "sint (i * i) = ?k * ?k"
    using "1.prems" by (intro sint_square) auto
  have pos: "0 \<le> ?n" "0 < ?k"
    using "1.prems" by (auto intro: order_trans [OF zero_le_square])
  show ?case
  proof (cases "?k * ?k \<le> ?n")
    case False
    have "\<not> d * d \<le> ?n" if "?k \<le> d" for d
    proof -
      have "?k * ?k \<le> d * d"
        using that "1.prems" by (intro mult_mono) auto
      then show ?thesis
        using False by simp
    qed
    then have "\<not> (\<exists>d. ?k \<le> d \<and> d * d \<le> ?n \<and> d dvd ?n)"
      by blast
    moreover have "is_prime_loop num i = Inr 1"
      using False square by (subst is_prime_loop.simps) (simp add: word_sle_eq)
    ultimately show ?thesis
      by simp
  next
    case True
    then have test: "i * i \<le>s num"
      using square by (simp add: word_sle_eq)
    show ?thesis
    proof (cases rule: c_mod_cases [OF pos])
      case 1
      then have "\<exists>d. ?k \<le> d \<and> d * d \<le> ?n \<and> d dvd ?n"
        using True by blast
      moreover have "is_prime_loop num i = Inr 0"
        using test 1 by (subst is_prime_loop.simps) simp
      ultimately show ?thesis
        by simp
    next
      case (2 r)
      have inc: "sint (i + 1) = ?k + 1"
        using k_max by (intro sint_incr) simp
      have "is_prime_loop num i = is_prime_loop num (i + 1)"
        using test 2 by (subst is_prime_loop.simps) simp
      also have "\<dots> = Inr (if \<exists>d. ?k + 1 \<le> d \<and> d * d \<le> ?n \<and> d dvd ?n then 0 else 1)"
        using "1.IH" [OF test 2(1) 2(2)] "1.prems" True inc by simp
      also have "(\<exists>d. ?k + 1 \<le> d \<and> d * d \<le> ?n \<and> d dvd ?n) \<longleftrightarrow>
          (\<exists>d. ?k \<le> d \<and> d * d \<le> ?n \<and> d dvd ?n)"
      proof
        assume "\<exists>d. ?k + 1 \<le> d \<and> d * d \<le> ?n \<and> d dvd ?n"
        then obtain d where "?k + 1 \<le> d" "d * d \<le> ?n" "d dvd ?n"
          by blast
        then show "\<exists>d. ?k \<le> d \<and> d * d \<le> ?n \<and> d dvd ?n"
          by (intro exI [of _ d]) simp
      next
        assume "\<exists>d. ?k \<le> d \<and> d * d \<le> ?n \<and> d dvd ?n"
        then obtain d where d: "?k \<le> d" "d * d \<le> ?n" "d dvd ?n"
          by blast
        with 2(3) have "d \<noteq> ?k"
          by auto
        with d show "\<exists>d. ?k + 1 \<le> d \<and> d * d \<le> ?n \<and> d dvd ?n"
          by (intro exI [of _ d]) simp
      qed
      finally show ?thesis .
    qed
  qed
qed

lemma is_prime_trial_division:
  assumes "2 \<le> sint num" and "sint num < 2147395600"
  shows "is_prime num =
    Inr (if \<exists>d. 2 \<le> d \<and> d * d \<le> sint num \<and> d dvd sint num then 0 else 1)"
proof -
  have "is_prime_loop num 2 =
    Inr (if \<exists>d. sint (2 :: c_int) \<le> d \<and> d * d \<le> sint num \<and> d dvd sint num then 0 else 1)"
    using assms by (intro is_prime_loop_trial_division) simp_all
  moreover have "\<not> num <s 2"
    using assms(1) by (simp add: word_sless_alt)
  ultimately show ?thesis
    by (simp add: is_prime_def)
qed

text \<open>At \<open>INT_MAX\<close> the test \<open>i * i \<le> num\<close> cannot fail, so the loop runs until \<open>i\<close> divides
  \<open>num\<close>, at \<open>i = num\<close> at the latest, and answers 0.\<close>

lemma is_prime_loop_INT_MAX:
  "2 \<le> sint i \<Longrightarrow> is_prime_loop INT_MAX i = Inr 0"
proof (induction "INT_MAX" i rule: is_prime_loop.induct)
  case (1 i)
  have max: "sint INT_MAX = 2147483647"
    by (simp add: INT_MAX_def)
  have test: "i * i \<le>s INT_MAX"
    using sint_c_int_bounds [of "i * i"] by (simp add: word_sle_eq max)
  have pos: "0 \<le> sint INT_MAX" "0 < sint i"
    using "1.prems" by (simp_all add: max)
  show ?case
  proof (cases rule: c_mod_cases [OF pos])
    case 1
    then show ?thesis
      using test by (subst is_prime_loop.simps) simp
  next
    case (2 r)
    then have "sint i \<noteq> sint INT_MAX"
      by auto
    then have "sint i < 2147483647"
      using sint_c_int_bounds [of i] by (simp add: max)
    then have "sint (i + 1) = sint i + 1"
      by (rule sint_incr)
    then have "is_prime_loop INT_MAX (i + 1) = Inr 0"
      using "1.prems" by (intro "1.hyps" [OF test 2(1) 2(2)]) simp
    then show ?thesis
      using test 2 by (subst is_prime_loop.simps) simp
  qed
qed

lemma is_prime_examples:
  "is_prime 2 = Inr 1" "is_prime 1 = Inr 0" "is_prime 17 = Inr 1" "is_prime 18 = Inr 0"
  by (simp_all add: is_prime_def is_prime_loop.simps c_mod_def INT_MIN_def
      signed_modulo_int_def word_sle_eq word_sless_alt)

text \<open>\<^verbatim>\<open>main\<close> exits with code 0, or the stack overflows in \<open>factorial\<close>.\<close>

lemma example_main_exit_code:
  "(\<exists>out'. example_main frames choice num1 d1 operator d2 out = Inr (out', 0)) \<or>
   example_main frames choice num1 d1 operator d2 out = Inl Stack_Overflow"
proof (cases "choice = 1 \<and> \<not> num1 <s 0")
  case True
  show ?thesis
  proof (cases "frames < nat (sint num1)")
    case True
    then have "factorial frames num1 = Inl Stack_Overflow"
      by (rule factorial_stack_overflow)
    with \<open>choice = 1 \<and> \<not> num1 <s 0\<close> show ?thesis
      by (simp add: example_main_def)
  next
    case False
    show ?thesis
    proof (cases frames)
      case 0
      with \<open>choice = 1 \<and> \<not> num1 <s 0\<close> show ?thesis
        by (simp add: example_main_def)
    next
      case (Suc f)
      with False have "max 1 (nat (sint num1)) \<le> frames"
        by simp
      then obtain r where "factorial frames num1 = Inr r"
        using factorial_returns by blast
      with \<open>choice = 1 \<and> \<not> num1 <s 0\<close> show ?thesis
        by (simp add: example_main_def)
    qed
  qed
next
  case False
  then show ?thesis
    using is_prime_total [of num1]
    by (auto simp: example_main_def Let_def split: prod.splits)
qed

subsection \<open>2147483647 is a prime number\<close>

text \<open>
  Every number from 2 on has a divisor \<open>q \<ge> 2\<close> without proper divisors. Such a \<open>q\<close> that
  divides \<open>2^31 - 1\<close> is odd and divides \<open>2^(q - 1) - 1\<close> (by the binomial sum for \<open>2^q\<close>)
  and \<open>2^31 - 1\<close>, so 31 divides \<open>q - 1\<close> and \<open>q\<close> is \<open>62 * m + 1\<close>. Up to the square root
  46340 these are the 747 candidates that \<open>no_factor_62\<close> checks.
\<close>

lemma irreducible_divisor:
  "2 \<le> (d :: nat) \<Longrightarrow> \<exists>q. 2 \<le> q \<and> q dvd d \<and> (\<forall>m. m dvd q \<longrightarrow> m = 1 \<or> m = q)"
proof (induction d rule: less_induct)
  case (less d)
  show ?case
  proof (cases "\<forall>m. m dvd d \<longrightarrow> m = 1 \<or> m = d")
    case True
    with less.prems have "2 \<le> d \<and> d dvd d \<and> (\<forall>m. m dvd d \<longrightarrow> m = 1 \<or> m = d)"
      by simp
    then show ?thesis ..
  next
    case False
    then obtain m where m: "m dvd d" "m \<noteq> 1" "m \<noteq> d"
      by blast
    have "m \<noteq> 0"
    proof
      assume "m = 0"
      with m(1) have "d = 0" by simp
      with less.prems show False by simp
    qed
    with m(2) have m2: "2 \<le> m"
      by simp
    have "m \<le> d"
      using m(1) less.prems by (intro dvd_imp_le) simp_all
    with m(3) have "m < d"
      by simp
    from less.IH [OF this m2]
    obtain q where q: "2 \<le> q" "q dvd m" "\<forall>k. k dvd q \<longrightarrow> k = 1 \<or> k = q"
      by blast
    from q(2) m(1) have "q dvd d"
      by (rule dvd_trans)
    with q(1,3) have "2 \<le> q \<and> q dvd d \<and> (\<forall>k. k dvd q \<longrightarrow> k = 1 \<or> k = q)"
      by simp
    then show ?thesis ..
  qed
qed

lemma irreducible_dvd_choose:
  assumes irr: "\<forall>m. m dvd q \<longrightarrow> m = 1 \<or> m = (q :: nat)" and "0 < k" and "k < q"
  shows "q dvd (q choose k)"
proof -
  have "gcd q k dvd q"
    by simp
  with irr have "gcd q k = 1 \<or> gcd q k = q"
    by blast
  moreover have "gcd q k \<le> k"
    using \<open>0 < k\<close> by (intro dvd_imp_le) simp_all
  ultimately have "gcd q k = 1"
    using \<open>k < q\<close> by auto
  then have "coprime q k"
    by (simp only: coprime_iff_gcd_eq_1)
  moreover have "q dvd k * (q choose k)"
    using times_binomial_minus1_eq [OF \<open>0 < k\<close>, of q] by simp
  ultimately show ?thesis
    by (simp add: coprime_dvd_mult_right_iff)
qed

lemma irreducible_power_2:
  assumes irr: "\<forall>m. m dvd q \<longrightarrow> m = 1 \<or> m = (q :: nat)" and "2 \<le> q" and "odd q"
  shows "2 ^ (q - 1) mod q = 1"
proof -
  have split: "{..q} = insert 0 (insert q {0<..<q})"
    by auto
  have "(2 :: nat) ^ q = (\<Sum>k\<le>q. q choose k)"
    by (simp add: choose_row_sum)
  also have "\<dots> = 2 + (\<Sum>k\<in>{0<..<q}. q choose k)"
    using \<open>2 \<le> q\<close> by (simp add: split)
  finally have "(2 :: nat) ^ q - 2 = (\<Sum>k\<in>{0<..<q}. q choose k)"
    by simp
  moreover have "q dvd (\<Sum>k\<in>{0<..<q}. q choose k)"
    by (intro dvd_sum irreducible_dvd_choose [OF irr]) auto
  moreover have "(2 :: nat) ^ q - 2 = 2 * (2 ^ (q - 1) - 1)"
    using \<open>2 \<le> q\<close> by (cases q) (simp_all add: algebra_simps)
  ultimately have "q dvd 2 * (2 ^ (q - 1) - 1)"
    by simp
  moreover have "coprime q 2"
    using \<open>odd q\<close> by simp
  ultimately have "q dvd 2 ^ (q - 1) - 1"
    by (simp add: coprime_dvd_mult_right_iff)
  then have "(2 ^ (q - 1) - 1 + 1) mod q = 1 mod q"
    by (metis mod_add_left_eq dvd_eq_mod_eq_0 add_0)
  then show ?thesis
    using \<open>2 \<le> q\<close> by simp
qed

lemma power_2_order_gcd:
  fixes q :: nat
  shows "2 ^ a mod q = 1 \<Longrightarrow> 2 ^ b mod q = 1 \<Longrightarrow> 2 ^ gcd a b mod q = 1"
proof (induction a b rule: gcd_nat_induct)
  case (base a)
  then show ?case by simp
next
  case (step a b)
  have "(2 :: nat) ^ a = (2 ^ b) ^ (a div b) * 2 ^ (a mod b)"
    by (simp flip: power_mult power_add)
  then have "2 ^ a mod q = ((2 ^ b mod q) ^ (a div b) mod q) * (2 ^ (a mod b) mod q) mod q"
    by (simp add: mod_mult_eq power_mod)
  with step.prems have "2 ^ (a mod b) mod q = 1"
    by (cases "q = 1") simp_all
  with step.IH step.prems have "2 ^ gcd b (a mod b) mod q = 1"
    by simp
  then show ?case
    by (simp add: gcd.commute [of a b] gcd_red_nat [symmetric])
qed

lemma dvd_31: "(m :: nat) dvd 31 \<Longrightarrow> m = 1 \<or> m = 31"
proof (rule ccontr)
  assume dvd: "m dvd 31" and other: "\<not> (m = 1 \<or> m = 31)"
  then obtain k where k: "31 = m * k"
    by (auto simp: dvd_def)
  have "m \<le> 31"
    using dvd by (intro dvd_imp_le) simp_all
  have k_dvd: "k dvd 31"
    by (subst k) (rule dvd_triv_right)
  then have "k \<le> 31"
    by (intro dvd_imp_le) simp_all
  have "m \<noteq> 0" "k \<noteq> 0"
    using k by (auto intro: ccontr)
  consider "m \<le> 5" | "k \<le> 5" | "6 \<le> m \<and> 6 \<le> k"
    by linarith
  then show False
  proof cases
    case 1
    then have "m = 1 \<or> m = 2 \<or> m = 3 \<or> m = 4 \<or> m = 5"
      using \<open>m \<noteq> 0\<close> by linarith
    then show False
      using dvd other by (elim disjE) simp_all
  next
    case 2
    then have "k = 1 \<or> k = 2 \<or> k = 3 \<or> k = 4 \<or> k = 5"
      using \<open>k \<noteq> 0\<close> by linarith
    moreover note k_dvd
    moreover have "k \<noteq> 1"
      using k other by auto
    ultimately show False
      by (elim disjE) simp_all
  next
    case 3
    then have "6 * 6 \<le> m * k"
      by (intro mult_mono) simp_all
    then show False
      using k by simp
  qed
qed

lemma mersenne_31_factor:
  assumes irr: "\<forall>m. m dvd q \<longrightarrow> m = 1 \<or> m = (q :: nat)" and "2 \<le> q" and "q dvd 2147483647"
  shows "\<exists>m. q = 62 * m + 1"
proof -
  have "odd q"
  proof
    assume "even q"
    then have "2 dvd (2147483647 :: nat)"
      using \<open>q dvd 2147483647\<close> by (rule dvd_trans)
    then show False
      by simp
  qed
  have "(2147483647 + 1) mod q = (0 + 1 :: nat) mod q"
    using \<open>q dvd 2147483647\<close> by (subst mod_add_left_eq [symmetric]) simp
  then have "2 ^ 31 mod q = 1"
    using \<open>2 \<le> q\<close> by simp
  moreover have "2 ^ (q - 1) mod q = 1"
    using irr \<open>2 \<le> q\<close> \<open>odd q\<close> by (rule irreducible_power_2)
  ultimately have order: "2 ^ gcd 31 (q - 1) mod q = 1"
    by (rule power_2_order_gcd)
  have "gcd 31 (q - 1) = 1 \<or> gcd 31 (q - 1) = 31"
    by (rule dvd_31) simp
  moreover have "gcd 31 (q - 1) \<noteq> 1"
  proof
    assume "gcd 31 (q - 1) = 1"
    with order have "2 mod q = 1"
      by simp
    then show False
      using \<open>2 \<le> q\<close> by (cases "q = 2") simp_all
  qed
  ultimately have "gcd 31 (q - 1) = 31"
    by simp
  then have "31 dvd q - 1"
    using gcd_dvd2 [of 31 "q - 1"] by simp
  moreover have "2 dvd q - 1"
    using \<open>odd q\<close> \<open>2 \<le> q\<close> by simp
  moreover have "coprime (2 :: nat) 31"
    by simp
  ultimately have "2 * 31 dvd q - 1"
    by (intro divides_mult)
  then obtain m where "q - 1 = 62 * m"
    by (auto simp: dvd_def)
  then have "q = 62 * m + 1"
    using \<open>2 \<le> q\<close> by simp
  then show ?thesis ..
qed

lemma no_factor_62_sound:
  "no_factor_62 m e \<Longrightarrow> m \<le> k \<Longrightarrow> k \<le> e \<Longrightarrow> \<not> (62 * k + 1) dvd 2147483647"
proof (induction m e rule: no_factor_62.induct)
  case (1 m e)
  from "1.prems" have "\<not> e < m"
    by simp
  with "1.prems"(1) have here: "(2147483647 :: int) mod (62 * m + 1) \<noteq> 0"
    and rest: "no_factor_62 (m + 1) e"
    by (simp_all add: no_factor_62.simps [of m e])
  show ?case
  proof (cases "k = m")
    case True
    with here show ?thesis
      by (simp add: dvd_eq_mod_eq_0)
  next
    case False
    with "1.prems" have "m + 1 \<le> k"
      by simp
    with \<open>\<not> e < m\<close> rest "1.prems" show ?thesis
      by (intro "1.IH") simp_all
  qed
qed

lemma no_factor_62_upto_747: "no_factor_62 1 747"
  by code_simp

lemma mersenne_31_prime_nat:
  assumes "2 \<le> (d :: nat)" and "d * d \<le> 2147483647"
  shows "\<not> d dvd 2147483647"
proof
  assume "d dvd 2147483647"
  from irreducible_divisor [OF assms(1)]
  obtain q where q: "2 \<le> q" "q dvd d" "\<forall>m. m dvd q \<longrightarrow> m = 1 \<or> m = q"
    by blast
  from q(2) \<open>d dvd 2147483647\<close> have dvd: "q dvd 2147483647"
    by (rule dvd_trans)
  from mersenne_31_factor [OF q(3) q(1) dvd]
  obtain m where m: "q = 62 * m + 1"
    by blast
  have "q \<le> d"
    using q(2) assms(1) by (intro dvd_imp_le) simp_all
  then have "q * q \<le> d * d"
    by (intro mult_mono) simp_all
  with assms(2) have "q * q \<le> 2147483647"
    by simp
  have "q \<le> 46340"
  proof (rule ccontr)
    assume "\<not> q \<le> 46340"
    then have "46341 * 46341 \<le> q * q"
      by (intro mult_mono) simp_all
    with \<open>q * q \<le> 2147483647\<close> show False
      by simp
  qed
  with m have "m \<le> 747"
    by simp
  moreover have "1 \<le> m"
    using m q(1) by simp
  ultimately have "\<not> (62 * int m + 1) dvd 2147483647"
    by (intro no_factor_62_sound [OF no_factor_62_upto_747]) simp_all
  moreover have "int q dvd int 2147483647"
    using dvd by (simp only: int_dvd_int_iff)
  ultimately show False
    using m by (simp add: add.commute)
qed

lemma mersenne_31_prime:
  "\<not> (\<exists>d :: int. 2 \<le> d \<and> d * d \<le> 2147483647 \<and> d dvd 2147483647)"
proof
  assume "\<exists>d :: int. 2 \<le> d \<and> d * d \<le> 2147483647 \<and> d dvd 2147483647"
  then obtain d :: int where d: "2 \<le> d" "d * d \<le> 2147483647" "d dvd 2147483647"
    by blast
  let ?n = "nat d"
  have int_n: "int ?n = d"
    using d(1) by simp
  have "2 \<le> ?n"
    using d(1) by simp
  moreover have "int (?n * ?n) \<le> int 2147483647"
    using d(2) int_n by simp
  then have "?n * ?n \<le> 2147483647"
    by (simp only: of_nat_le_iff)
  moreover have "int ?n dvd int 2147483647"
    using d(3) int_n by simp
  then have "?n dvd 2147483647"
    by (simp only: int_dvd_int_iff)
  ultimately show False
    using mersenne_31_prime_nat by blast
qed

text \<open>
  Claim C3 fails on the code at the largest \<^verbatim>\<open>int\<close>. No \<open>d\<close> with \<open>2 \<le> d\<close> and
  \<open>d * d \<le> 2147483647\<close> divides 2147483647, so the claim has \<open>is_prime\<close> return true
  there; the code returns 0. The product \<open>i * i\<close> overflows at \<open>i = 46341\<close> before any
  divisor is found, the 32-bit product never exceeds \<open>num\<close>, and the loop goes on to
  \<open>i = num\<close>, which divides \<open>num\<close>: \<^verbatim>\<open>main\<close> prints that 2147483647 is not a prime number.
  The claim is right below \<open>46340\<^sup>2 = 2147395600\<close> (\<open>is_prime_trial_division\<close>) and at 2,
  1, 17 and 18 (\<open>is_prime_examples\<close>).
\<close>

theorem is_prime_2147483647:
  "is_prime 2147483647 = Inr 0 \<and>
   \<not> (\<exists>d :: int. 2 \<le> d \<and> d * d \<le> 2147483647 \<and> d dvd 2147483647)"
  using is_prime_loop_INT_MAX [of 2] mersenne_31_prime
  by (simp add: is_prime_def INT_MAX_def)

section \<open>Properties of the statistics sample\<close>

subsection \<open>The two loops over the array\<close>

lemma array_read_in_bounds:
  "0 \<le> sint i \<Longrightarrow> nat (sint i) < length arr \<Longrightarrow> array_read arr i = Inr (arr ! nat (sint i))"
  by (simp add: array_read_def word_sle_eq)

lemma array_read_out_of_bounds:
  "length arr \<le> nat (sint i) \<Longrightarrow> array_read arr i = Inl Out_Of_Bounds"
  by (simp add: array_read_def)

lemma take_drop_step:
  assumes "k < m" and "m \<le> length xs"
  shows "take (m - k) (drop k xs) = xs ! k # take (m - Suc k) (drop (Suc k) xs)"
proof -
  have "drop k xs = xs ! k # drop (Suc k) xs"
    using assms by (intro Cons_nth_drop_Suc [symmetric]) simp
  moreover have "m - k = Suc (m - Suc k)"
    using assms(1) by simp
  ultimately show ?thesis
    by simp
qed

text \<open>The loop of \<open>calculate_mean\<close> is the rounded sum of the elements from \<open>i\<close> to
  \<open>n\<close>, when these are in the array.\<close>

lemma mean_loop_rounded_sum:
  "0 \<le> sint i \<Longrightarrow> sint i \<le> sint n \<Longrightarrow> nat (sint n) \<le> length arr \<Longrightarrow>
   mean_loop arr n i s =
     Inr (rounded_sum (take (nat (sint n) - nat (sint i)) (drop (nat (sint i)) arr)) s)"
proof (induction arr n i s rule: mean_loop.induct)
  case (1 arr n i s)
  show ?case
  proof (cases "i <s n")
    case False
    then have "sint i = sint n"
      using "1.prems" by (simp add: word_sless_alt)
    moreover have "mean_loop arr n i s = Inr s"
      using False by (subst mean_loop.simps) simp
    ultimately show ?thesis
      by simp
  next
    case True
    let ?x = "arr ! nat (sint i)"
    have less: "sint i < sint n"
      using True by (simp add: word_sless_alt)
    have rd: "array_read arr i = Inr ?x"
      using "1.prems" less by (intro array_read_in_bounds) auto
    have inc: "sint (i + 1) = sint i + 1"
      using less sint_c_int_bounds [of n] by (intro sint_incr) simp
    have next_i: "nat (sint (i + 1)) = Suc (nat (sint i))"
      using inc "1.prems" by simp
    have split: "take (nat (sint n) - nat (sint i)) (drop (nat (sint i)) arr) =
        ?x # take (nat (sint n) - Suc (nat (sint i))) (drop (Suc (nat (sint i))) arr)"
      using "1.prems" less by (intro take_drop_step) auto
    have "mean_loop arr n i s = mean_loop arr n (i + 1) (fadd s ?x)"
      using True rd by (subst mean_loop.simps) simp
    also have "\<dots> = Inr (rounded_sum
        (take (nat (sint n) - nat (sint (i + 1))) (drop (nat (sint (i + 1))) arr)) (fadd s ?x))"
      using "1.prems" inc less by (intro "1.IH" [OF True rd]) auto
    finally show ?thesis
      by (simp add: split next_i)
  qed
qed

lemma calculate_mean_rounded:
  assumes "nat (sint n) \<le> length arr"
  shows "calculate_mean arr n =
    Inr (fdiv (rounded_sum (take (nat (sint n)) arr) (Finite 0)) (double_of_int n))"
proof (cases "0 \<le> sint n")
  case True
  have "mean_loop arr n 0 (Finite 0) = Inr (rounded_sum
      (take (nat (sint n) - nat (sint (0 :: c_int))) (drop (nat (sint (0 :: c_int))) arr))
      (Finite 0))"
    using assms True by (intro mean_loop_rounded_sum) auto
  then show ?thesis
    by (simp add: calculate_mean_def)
next
  case False
  then have "\<not> 0 <s n"
    by (simp add: word_sless_alt)
  then have "mean_loop arr n 0 (Finite 0) = Inr (Finite 0)"
    by (subst mean_loop.simps) simp
  then show ?thesis
    using False by (simp add: calculate_mean_def)
qed

text \<open>The same for the loop of \<open>calculate_variance\<close>.\<close>

lemma variance_loop_rounded_sum_sq:
  "0 \<le> sint j \<Longrightarrow> sint j \<le> sint n \<Longrightarrow> nat (sint n) \<le> length arr \<Longrightarrow>
   variance_loop arr n mean j s =
     Inr (rounded_sum_sq mean (take (nat (sint n) - nat (sint j)) (drop (nat (sint j)) arr)) s)"
proof (induction arr n mean j s rule: variance_loop.induct)
  case (1 arr n mean j s)
  show ?case
  proof (cases "j <s n")
    case False
    then have "sint j = sint n"
      using "1.prems" by (simp add: word_sless_alt)
    moreover have "variance_loop arr n mean j s = Inr s"
      using False by (subst variance_loop.simps) simp
    ultimately show ?thesis
      by simp
  next
    case True
    let ?x = "arr ! nat (sint j)"
    let ?s = "fadd s (pow_double (fsub ?x mean) 2)"
    have less: "sint j < sint n"
      using True by (simp add: word_sless_alt)
    have rd: "array_read arr j = Inr ?x"
      using "1.prems" less by (intro array_read_in_bounds) auto
    have inc: "sint (j + 1) = sint j + 1"
      using less sint_c_int_bounds [of n] by (intro sint_incr) simp
    have next_j: "nat (sint (j + 1)) = Suc (nat (sint j))"
      using inc "1.prems" by simp
    have split: "take (nat (sint n) - nat (sint j)) (drop (nat (sint j)) arr) =
        ?x # take (nat (sint n) - Suc (nat (sint j))) (drop (Suc (nat (sint j))) arr)"
      using "1.prems" less by (intro take_drop_step) auto
    have "variance_loop arr n mean j s = variance_loop arr n mean (j + 1) ?s"
      using True rd by (subst variance_loop.simps) (simp add: Let_def)
    also have "\<dots> = Inr (rounded_sum_sq mean
        (take (nat (sint n) - nat (sint (j + 1))) (drop (nat (sint (j + 1))) arr)) ?s)"
      using "1.prems" inc less by (intro "1.IH" [OF True rd refl]) auto
    finally show ?thesis
      by (simp add: split next_j)
  qed
qed

lemma calculate_variance_rounded:
  assumes "nat (sint n) \<le> length arr"
  shows "calculate_variance arr n mean =
    Inr (fdiv (rounded_sum_sq mean (take (nat (sint n)) arr) (Finite 0)) (double_of_int (n - 1)))"
proof (cases "0 \<le> sint n")
  case True
  have "variance_loop arr n mean 0 (Finite 0) = Inr (rounded_sum_sq mean
      (take (nat (sint n) - nat (sint (0 :: c_int))) (drop (nat (sint (0 :: c_int))) arr))
      (Finite 0))"
    using assms True by (intro variance_loop_rounded_sum_sq) auto
  then show ?thesis
    by (simp add: calculate_variance_def)
next
  case False
  then have "\<not> 0 <s n"
    by (simp add: word_sless_alt)
  then have "variance_loop arr n mean 0 (Finite 0) = Inr (Finite 0)"
    by (subst variance_loop.simps) simp
  then show ?thesis
    using False by (simp add: calculate_variance_def)
qed

text \<open>With the counts 0 and 1 the two functions divide by zero: the mean of no element
  is NaN, and so is the variance of one finite element.\<close>

lemma calculate_mean_zero: "calculate_mean arr 0 = Inr NaN"
  using calculate_mean_rounded [of 0 arr] by (simp add: double_of_int_def)

lemma calculate_variance_one:
  "calculate_variance (Finite x # arr) 1 (Finite x) = Inr NaN"
  using calculate_variance_rounded [of 1 "Finite x # arr" "Finite x"]
  by (simp add: double_of_int_def pow_double_square to_double_0)

subsection \<open>When no operation rounds\<close>





subsection \<open>The sample of \<^verbatim>\<open>main\<close>\<close>










subsection \<open>Other arrays\<close>

text \<open>A sample of low variance and one of high variance, where no operation rounds.\<close>

lemma low_mean: "calculate_mean [Finite 1, Finite 2, Finite 3] 3 = Inr (Finite 2)"
proof -
  have sa: "to_double (0 + 1) = Finite 1"
    using to_double_nearest [of 0 "0 + 1" 4503599627370496] by simp
  have sb: "to_double (1 + 2) = Finite 3"
    using to_double_nearest [of 1 "1 + 2" 6755399441055744] by simp
  have sc: "to_double (3 + 3) = Finite 6"
    using to_double_nearest [of 2 "3 + 3" 6755399441055744] by simp
  have quot: "to_double (6 / 3) = Finite 2"
    using to_double_nearest [of 1 "6 / 3" 4503599627370496] by simp
  have "rounded_sum [Finite 1, Finite 2, Finite 3] (Finite 0) = Finite 6"
    by (simp only: rounded_sum.simps fadd.simps(1) sa sb sc)
  then show ?thesis
    using quot by (simp add: calculate_mean_rounded double_of_int_def)
qed

lemma low_variance:
  "calculate_variance [Finite 1, Finite 2, Finite 3] 3 (Finite 2) = Inr (Finite 1)"
proof -
  have da: "to_double (1 - 2) = Finite (- 1)"
    using to_double_nearest [of 0 "1 - 2" "- 4503599627370496"] by simp
  have qa: "to_double ((- 1)\<^sup>2) = Finite 1"
    using to_double_nearest [of 0 "(- 1)\<^sup>2"
      4503599627370496] by (simp add: power2_eq_square)
  have sa: "to_double (0 + 1) = Finite 1"
    using to_double_nearest [of 0 "0 + 1" 4503599627370496] by simp
  have db: "to_double (2 - 2) = Finite 0"
    using to_double_0 by simp
  have qb: "to_double (0\<^sup>2) = Finite 0"
    using to_double_0 by simp
  have sb: "to_double (1 + 0) = Finite 1"
    using to_double_nearest [of 0 "1 + 0" 4503599627370496] by simp
  have dc: "to_double (3 - 2) = Finite 1"
    using to_double_nearest [of 0 "3 - 2" 4503599627370496] by simp
  have qc: "to_double (1\<^sup>2) = Finite 1"
    using to_double_nearest [of 0 "1\<^sup>2" 4503599627370496] by (simp add: power2_eq_square)
  have sc: "to_double (1 + 1) = Finite 2"
    using to_double_nearest [of 1 "1 + 1" 4503599627370496] by simp
  have quot: "to_double (2 / 2) = Finite 1"
    using to_double_nearest [of 0 "2 / 2" 4503599627370496] by simp
  have "rounded_sum_sq (Finite 2) [Finite 1, Finite 2, Finite 3] (Finite 0) = Finite 2"
    by (simp only: rounded_sum_sq.simps fsub.simps(1) pow_double_square fadd.simps(1)
        da qa sa db qb sb dc qc sc)
  then show ?thesis
    using quot by (simp add: calculate_variance_rounded double_of_int_def)
qed

lemma high_mean: "calculate_mean [Finite 0, Finite 0, Finite 9] 3 = Inr (Finite 3)"
proof -
  have sa: "to_double (0 + 0) = Finite 0"
    using to_double_0 by simp
  have sb: "to_double (0 + 0) = Finite 0"
    using to_double_0 by simp
  have sc: "to_double (0 + 9) = Finite 9"
    using to_double_nearest [of 3 "0 + 9" 5066549580791808] by simp
  have quot: "to_double (9 / 3) = Finite 3"
    using to_double_nearest [of 1 "9 / 3" 6755399441055744] by simp
  have "rounded_sum [Finite 0, Finite 0, Finite 9] (Finite 0) = Finite 9"
    by (simp only: rounded_sum.simps fadd.simps(1) sa sb sc)
  then show ?thesis
    using quot by (simp add: calculate_mean_rounded double_of_int_def)
qed

lemma high_variance:
  "calculate_variance [Finite 0, Finite 0, Finite 9] 3 (Finite 3) = Inr (Finite 27)"
proof -
  have da: "to_double (0 - 3) = Finite (- 3)"
    using to_double_nearest [of 1 "0 - 3" "- 6755399441055744"] by simp
  have qa: "to_double ((- 3)\<^sup>2) = Finite 9"
    using to_double_nearest [of 3 "(- 3)\<^sup>2"
      5066549580791808] by (simp add: power2_eq_square)
  have sa: "to_double (0 + 9) = Finite 9"
    using to_double_nearest [of 3 "0 + 9" 5066549580791808] by simp
  have db: "to_double (0 - 3) = Finite (- 3)"
    using to_double_nearest [of 1 "0 - 3" "- 6755399441055744"] by simp
  have qb: "to_double ((- 3)\<^sup>2) = Finite 9"
    using to_double_nearest [of 3 "(- 3)\<^sup>2"
      5066549580791808] by (simp add: power2_eq_square)
  have sb: "to_double (9 + 9) = Finite 18"
    using to_double_nearest [of 4 "9 + 9" 5066549580791808] by simp
  have dc: "to_double (9 - 3) = Finite 6"
    using to_double_nearest [of 2 "9 - 3" 6755399441055744] by simp
  have qc: "to_double (6\<^sup>2) = Finite 36"
    using to_double_nearest [of 5 "6\<^sup>2" 5066549580791808] by (simp add: power2_eq_square)
  have sc: "to_double (18 + 36) = Finite 54"
    using to_double_nearest [of 5 "18 + 36" 7599824371187712] by simp
  have quot: "to_double (54 / 2) = Finite 27"
    using to_double_nearest [of 4 "54 / 2" 7599824371187712] by simp
  have "rounded_sum_sq (Finite 3) [Finite 0, Finite 0, Finite 9] (Finite 0) = Finite 54"
    by (simp only: rounded_sum_sq.simps fsub.simps(1) pow_double_square fadd.simps(1)
        da qa sa db qb sb dc qc sc)
  then show ?thesis
    using quot by (simp add: calculate_variance_rounded double_of_int_def)
qed


text \<open>A sum beyond the largest finite double, which is about \<open>1.797 \<times> 10\<^sup>3\<^sup>0\<^sup>8\<close>: for the
  two elements \<^verbatim>\<open>1.7e308\<close> the mean is infinite, and so is the variance.\<close>

lemma literal_17e307: "literal (17 * 10 ^ 307) = Finite (8517715530038134 * 2 ^ 971)"
  using to_double_nearest [of 1023 "17 * 10 ^ 307" 8517715530038134]
  by (simp add: literal_def)

lemma overflow_mean:
  "calculate_mean [literal (17 * 10 ^ 307), literal (17 * 10 ^ 307)] 2 = Inr PInf"
proof -
  have sa: "to_double (0 + 8517715530038134 * 2 ^ 971) = Finite (8517715530038134 * 2 ^ 971)"
    using to_double_nearest [of 1023 "0 + 8517715530038134 * 2 ^ 971" 8517715530038134]
    by simp
  have sb: "to_double (8517715530038134 * 2 ^ 971 + 8517715530038134 * 2 ^ 971) = PInf"
    using to_double_overflow [of 1024
      "8517715530038134 * 2 ^ 971 + 8517715530038134 * 2 ^ 971" 8517715530038134]
    by simp
  have "rounded_sum
      [Finite (8517715530038134 * 2 ^ 971), Finite (8517715530038134 * 2 ^ 971)]
      (Finite 0) = PInf"
    by (simp only: rounded_sum.simps fadd.simps(1) sa sb)
  then show ?thesis
    unfolding literal_17e307 by (simp add: calculate_mean_rounded double_of_int_def)
qed

lemma overflow_variance:
  "calculate_variance [literal (17 * 10 ^ 307), literal (17 * 10 ^ 307)] 2 PInf = Inr PInf"
proof -
  have "\<lfloor>2 :: real\<rfloor> = 2"
    by simp
  then have "pow_double MInf 2 = PInf"
    by (simp add: pow_double_def)
  then have "rounded_sum_sq PInf
      [Finite (8517715530038134 * 2 ^ 971), Finite (8517715530038134 * 2 ^ 971)]
      (Finite 0) = PInf"
    by simp
  then show ?thesis
    unfolding literal_17e307 by (simp add: calculate_variance_rounded double_of_int_def)
qed

text \<open>A sample whose computed variance is the threshold itself, while the exact variance
  of the same three doubles is above it.\<close>

lemma literal_3_47: "literal 3.4749371855331 = Finite (7824862906951375 / 2 ^ 51)"
  using to_double_nearest [of 1 "3.4749371855331" 7824862906951375] by (simp add: literal_def)

lemma threshold_mean_doubles:
  "calculate_mean [Finite (- 3), Finite 0, Finite (7824862906951375 / 2 ^ 51)] 3 =
   Inr (Finite (5703805151443365 / 2 ^ 55))"
proof -
  have sa: "to_double (0 + (- 3)) = Finite (- 3)"
    using to_double_nearest [of 1 "0 + (- 3)" "- 6755399441055744"] by simp
  have sb: "to_double (- 3 + 0) = Finite (- 3)"
    using to_double_nearest [of 1 "- 3 + 0" "- 6755399441055744"] by simp
  have sc: "to_double (- 3 + 7824862906951375 / 2 ^ 51) = Finite (1069463465895631 / 2 ^ 51)"
    using to_double_nearest [of "- 2" "- 3 + 7824862906951375 / 2 ^ 51" 8555707727165048] by simp
  have quot: "to_double ((1069463465895631 / 2 ^ 51) / 3) = Finite (5703805151443365 / 2 ^ 55)"
    using to_double_nearest [of "- 3" "(1069463465895631 / 2 ^ 51) / 3" 5703805151443365] by simp
  have "rounded_sum
      [Finite (- 3), Finite 0, Finite (7824862906951375 / 2 ^ 51)]
      (Finite 0) = Finite (1069463465895631 / 2 ^ 51)"
    by (simp only: rounded_sum.simps fadd.simps(1) sa sb sc)
  then show ?thesis
    using quot by (simp add: calculate_mean_rounded double_of_int_def)
qed

lemma threshold_variance_doubles:
  "calculate_variance [Finite (- 3), Finite 0, Finite (7824862906951375 / 2 ^ 51)] 3
     (Finite (5703805151443365 / 2 ^ 55)) =
   Inr (Finite (21 / 2))"
proof -
  have da: "to_double (- 3 - 5703805151443365 / 2 ^ 55) = Finite (- 3555943631510477 / 2 ^ 50)"
    using to_double_nearest [of 1 "- 3 - 5703805151443365 / 2 ^ 55" "- 7111887263020954"] by simp
  have qa: "to_double ((- 3555943631510477 / 2 ^ 50)\<^sup>2) =
      Finite (5615390423976371 / 2 ^ 49)"
    using to_double_nearest [of 3 "(- 3555943631510477 / 2 ^ 50)\<^sup>2"
      5615390423976371] by (simp add: power2_eq_square)
  have sa: "to_double (0 + 5615390423976371 / 2 ^ 49) = Finite (5615390423976371 / 2 ^ 49)"
    using to_double_nearest [of 3 "0 + 5615390423976371 / 2 ^ 49" 5615390423976371] by simp
  have db: "to_double (0 - 5703805151443365 / 2 ^ 55) = Finite (- 5703805151443365 / 2 ^ 55)"
    using to_double_nearest [of "- 3" "0 - 5703805151443365 / 2 ^ 55"
      "- 5703805151443365"] by simp
  have qb: "to_double ((- 5703805151443365 / 2 ^ 55)\<^sup>2) =
      Finite (3611932220607613 / 2 ^ 57)"
    using to_double_nearest [of "- 6" "(- 5703805151443365 / 2 ^ 55)\<^sup>2"
      7223864441215226] by (simp add: power2_eq_square)
  have sb: "to_double (5615390423976371 / 2 ^ 49 + 3611932220607613 / 2 ^ 57) =
      Finite (5629499534213119 / 2 ^ 49)"
    using to_double_nearest [of 3 "5615390423976371 / 2 ^ 49 + 3611932220607613 / 2 ^ 57"
      5629499534213119] by simp
  have dc: "to_double (7824862906951375 / 2 ^ 51 - 5703805151443365 / 2 ^ 55) =
      Finite (7468375084986165 / 2 ^ 51)"
    using to_double_nearest [of 1 "7824862906951375 / 2 ^ 51 - 5703805151443365 / 2 ^ 55"
      7468375084986165] by simp
  have qc: "to_double ((7468375084986165 / 2 ^ 51)\<^sup>2) = Finite (3096224743817217 / 2 ^ 48)"
    using to_double_nearest [of 3 "(7468375084986165 / 2 ^ 51)\<^sup>2"
      6192449487634434] by (simp add: power2_eq_square)
  have sc: "to_double (5629499534213119 / 2 ^ 49 + 3096224743817217 / 2 ^ 48) = Finite 21"
    using to_double_tie [of 4 "5629499534213119 / 2 ^ 49 + 3096224743817217 / 2 ^ 48"
      5910974510923776] by simp
  have quot: "to_double (21 / 2) = Finite (21 / 2)"
    using to_double_nearest [of 3 "21 / 2" 5910974510923776] by simp
  have "rounded_sum_sq (Finite (5703805151443365 / 2 ^ 55))
      [Finite (- 3), Finite 0, Finite (7824862906951375 / 2 ^ 51)]
      (Finite 0) = Finite 21"
    by (simp only: rounded_sum_sq.simps fsub.simps(1) pow_double_square fadd.simps(1)
        da qa sa db qb sb dc qc sc)
  then show ?thesis
    using quot by (simp add: calculate_variance_rounded double_of_int_def)
qed

lemma threshold_variance_exact:
  "(21 / 2 :: real) <
   (\<Sum>x\<leftarrow>[- 3, 0, 7824862906951375 / 2 ^ 51].
      (x - sum_list [- 3, 0, 7824862906951375 / 2 ^ 51] / 3)\<^sup>2) / 2"
  by (simp add: power2_eq_square)

subsection \<open>\<^verbatim>\<open>process_data\<close> and \<^verbatim>\<open>main\<close>\<close>

lemma literal_threshold: "literal THRESHOLD = Finite 10.5"
  using to_double_nearest [of 3 "10.5" 5910974510923776]
  by (simp add: literal_def THRESHOLD_def)

lemma classification_high:
  "10.5 < v \<Longrightarrow>
   classification (Finite v) out = out @ [(''Stato: Alta variabilita' rilevata.\<newline>'', [])]"
  by (simp add: classification_def literal_threshold printf_def)


lemma process_data_insufficient:
  "count \<le>s 1 \<Longrightarrow>
   process_data data count out =
     Inr (data, out @ [(''Errore: Dati insufficienti per l'analisi statistica.\<newline>'', [])])"
  by (simp add: process_data_def printf_def)

text \<open>With a count above 1: the mean, the variance with that mean, the three lines of
  the results, and the line of the state, which the variance selects.\<close>

lemma process_data_sequence:
  "\<not> count \<le>s 1 \<Longrightarrow>
   process_data data count out =
     (case calculate_mean (values data) count of
        Inl e \<Rightarrow> Inl e
      | Inr m \<Rightarrow>
          (case calculate_variance (values data) count m of
             Inl e \<Rightarrow> Inl e
           | Inr v \<Rightarrow>
               Inr (data\<lparr>average := m, variance := v\<rparr>,
                    out @ [(''Analisi ID: %d\<newline>'', [Arg_Int (id_c data)]),
                           (''Media Calcolata: %.4f\<newline>'', [Arg_Binary64 m]),
                           (''Varianza: %.4f\<newline>'', [Arg_Binary64 v]),
                           (if fgt v (Finite 10.5) then ''Stato: Alta variabilita' rilevata.\<newline>''
                            else ''Stato: Variabilita' nella norma.\<newline>'', [])])))"
  by (simp add: process_data_def classification_def literal_threshold printf_def Let_def
      split: sum.splits)

text \<open>The sample at the threshold is in the normal state, as the code prints it.\<close>

lemma process_data_at_threshold:
  "process_data
     \<lparr>id_c = 7, values = [Finite (- 3), Finite 0, literal 3.4749371855331],
        average = Finite 0, variance = Finite 0\<rparr> 3 [] =
   Inr (\<lparr>id_c = 7, values = [Finite (- 3), Finite 0, literal 3.4749371855331],
          average = Finite (5703805151443365 / 2 ^ 55), variance = Finite (21 / 2)\<rparr>,
        [(''Analisi ID: %d\<newline>'', [Arg_Int 7]),
         (''Media Calcolata: %.4f\<newline>'', [Arg_Binary64 (Finite (5703805151443365 / 2 ^ 55))]),
         (''Varianza: %.4f\<newline>'', [Arg_Binary64 (Finite (21 / 2))]),
         (''Stato: Variabilita' nella norma.\<newline>'', [])])"
proof -
  let ?data = "\<lparr>id_c = 7, values = [Finite (- 3), Finite 0, Finite (7824862906951375 / 2 ^ 51)],
    average = Finite 0, variance = Finite 0\<rparr>"
  have vals: "values ?data = [Finite (- 3), Finite 0, Finite (7824862906951375 / 2 ^ 51)]"
    by simp
  have "\<not> (3 :: c_int) \<le>s 1"
    by (simp add: word_sle_eq)
  from process_data_sequence [OF this, of ?data "[]"] show ?thesis
    unfolding literal_3_47 vals threshold_mean_doubles threshold_variance_doubles sum.case
    by simp
qed

text \<open>The sample that overflows is in the high state, the variance being infinite.\<close>

lemma process_data_overflow:
  "process_data
     \<lparr>id_c = 9, values = [literal (17 * 10 ^ 307), literal (17 * 10 ^ 307)],
        average = Finite 0, variance = Finite 0\<rparr> 2 [] =
   Inr (\<lparr>id_c = 9, values = [literal (17 * 10 ^ 307), literal (17 * 10 ^ 307)],
          average = PInf, variance = PInf\<rparr>,
        [(''Analisi ID: %d\<newline>'', [Arg_Int 9]),
         (''Media Calcolata: %.4f\<newline>'', [Arg_Binary64 PInf]),
         (''Varianza: %.4f\<newline>'', [Arg_Binary64 PInf]),
         (''Stato: Alta variabilita' rilevata.\<newline>'', [])])"
proof -
  let ?data = "\<lparr>id_c = 9, values = [literal (17 * 10 ^ 307), literal (17 * 10 ^ 307)],
    average = Finite 0, variance = Finite 0\<rparr>"
  have vals: "values ?data = [literal (17 * 10 ^ 307), literal (17 * 10 ^ 307)]"
    by simp
  have "\<not> (2 :: c_int) \<le>s 1"
    by (simp add: word_sle_eq)
  from process_data_sequence [OF this, of ?data "[]"] show ?thesis
    unfolding vals overflow_mean overflow_variance sum.case
    by simp
qed




subsection \<open>The claims on the statistics\<close>







text \<open>
  Claim C6. For every variance \<open>v\<close>, the classification prints "high variability" if and
  only if \<open>v\<close> is strictly above the threshold 10.5, and "normal variability" otherwise,
  so also at \<open>v = 10.5\<close>. It is a total function of \<open>v\<close> that only appends its one line
  to the output. (The positive infinity is above the threshold; the negative one and
  NaN are not.)
\<close>

theorem classification_threshold:
  "(classification (Finite v) out =
      out @ [(''Stato: Alta variabilita' rilevata.\<newline>'', [])]) = (10.5 < v) \<and>
   (classification (Finite v) out =
      out @ [(''Stato: Variabilita' nella norma.\<newline>'', [])]) = (v \<le> 10.5) \<and>
   classification (Finite 10.5) out = out @ [(''Stato: Variabilita' nella norma.\<newline>'', [])] \<and>
   classification PInf out = out @ [(''Stato: Alta variabilita' rilevata.\<newline>'', [])] \<and>
   classification MInf out = out @ [(''Stato: Variabilita' nella norma.\<newline>'', [])] \<and>
   classification NaN out = out @ [(''Stato: Variabilita' nella norma.\<newline>'', [])]"
  by (simp add: classification_def literal_threshold printf_def)

text \<open>
  Claim C7. For every \<open>DataSet\<close> and every \<open>count \<le> 1\<close>, \<open>process_data\<close> reports the
  insufficient sample and computes nothing: the \<open>DataSet\<close> is returned as it was, with
  its average and its variance. For every \<open>count \<ge> 2\<close> it computes the mean, then the
  variance with that mean, stores both and prints them, and then classifies that
  variance: it prints the line of the high state when the variance is above 10.5 and
  the line of the normal state when it is not. (A count beyond the array ends the run
  with the fault of the read.)
\<close>

theorem process_data_orchestration:
  "(count \<le>s 1 \<longrightarrow>
      process_data data count out =
        Inr (data, out @ [(''Errore: Dati insufficienti per l'analisi statistica.\<newline>'', [])])) \<and>
   (2 \<le>s count \<longrightarrow>
      process_data data count out =
        (case calculate_mean (values data) count of
           Inl e \<Rightarrow> Inl e
         | Inr m \<Rightarrow>
             (case calculate_variance (values data) count m of
                Inl e \<Rightarrow> Inl e
              | Inr v \<Rightarrow>
                  Inr (data\<lparr>average := m, variance := v\<rparr>,
                       out @ [(''Analisi ID: %d\<newline>'', [Arg_Int (id_c data)]),
                              (''Media Calcolata: %.4f\<newline>'', [Arg_Binary64 m]),
                              (''Varianza: %.4f\<newline>'', [Arg_Binary64 v]),
                              (if fgt v (Finite 10.5)
                               then ''Stato: Alta variabilita' rilevata.\<newline>''
                               else ''Stato: Variabilita' nella norma.\<newline>'', [])]))))"
proof (intro conjI impI)
  assume "count \<le>s 1"
  then show "process_data data count out =
      Inr (data, out @ [(''Errore: Dati insufficienti per l'analisi statistica.\<newline>'', [])])"
    by (rule process_data_insufficient)
next
  assume "2 \<le>s count"
  then have "\<not> count \<le>s 1"
    by (simp add: word_sle_eq)
  then show "process_data data count out =
        (case calculate_mean (values data) count of
           Inl e \<Rightarrow> Inl e
         | Inr m \<Rightarrow>
             (case calculate_variance (values data) count m of
                Inl e \<Rightarrow> Inl e
              | Inr v \<Rightarrow>
                  Inr (data\<lparr>average := m, variance := v\<rparr>,
                       out @ [(''Analisi ID: %d\<newline>'', [Arg_Int (id_c data)]),
                              (''Media Calcolata: %.4f\<newline>'', [Arg_Binary64 m]),
                              (''Varianza: %.4f\<newline>'', [Arg_Binary64 v]),
                              (if fgt v (Finite 10.5)
                               then ''Stato: Alta variabilita' rilevata.\<newline>''
                               else ''Stato: Variabilita' nella norma.\<newline>'', [])])))"
    by (rule process_data_sequence)
qed

theorem process_data_orchestration_witness:
  "(1 :: c_int) \<le>s 1 \<and>
   process_data
     \<lparr>id_c = 7, values = [Finite 1, Finite 2, Finite 3], average = Finite 40,
        variance = Finite 50\<rparr> 1 [] =
     Inr (\<lparr>id_c = 7, values = [Finite 1, Finite 2, Finite 3], average = Finite 40,
            variance = Finite 50\<rparr>,
          [(''Errore: Dati insufficienti per l'analisi statistica.\<newline>'', [])]) \<and>
   2 \<le>s (3 :: c_int) \<and>
   process_data
     \<lparr>id_c = 7, values = [Finite 1, Finite 2, Finite 3], average = Finite 40,
        variance = Finite 50\<rparr> 3 [] =
     Inr (\<lparr>id_c = 7, values = [Finite 1, Finite 2, Finite 3], average = Finite 2,
            variance = Finite 1\<rparr>,
          [(''Analisi ID: %d\<newline>'', [Arg_Int 7]),
           (''Media Calcolata: %.4f\<newline>'', [Arg_Binary64 (Finite 2)]),
           (''Varianza: %.4f\<newline>'', [Arg_Binary64 (Finite 1)]),
           (''Stato: Variabilita' nella norma.\<newline>'', [])]) \<and>
   process_data
     \<lparr>id_c = 8, values = [Finite 0, Finite 0, Finite 9], average = Finite 40,
        variance = Finite 50\<rparr> 3 [] =
     Inr (\<lparr>id_c = 8, values = [Finite 0, Finite 0, Finite 9], average = Finite 3,
            variance = Finite 27\<rparr>,
          [(''Analisi ID: %d\<newline>'', [Arg_Int 8]),
           (''Media Calcolata: %.4f\<newline>'', [Arg_Binary64 (Finite 3)]),
           (''Varianza: %.4f\<newline>'', [Arg_Binary64 (Finite 27)]),
           (''Stato: Alta variabilita' rilevata.\<newline>'', [])])"
proof -
  let ?low = "\<lparr>id_c = 7, values = [Finite 1, Finite 2, Finite 3], average = Finite 40,
    variance = Finite 50\<rparr>"
  let ?high = "\<lparr>id_c = 8, values = [Finite 0, Finite 0, Finite 9], average = Finite 40,
    variance = Finite 50\<rparr>"
  note too_few = process_data_orchestration [of 1 ?low "[]", THEN conjunct1]
  note low = process_data_orchestration [of 3 ?low "[]", THEN conjunct2]
  note high = process_data_orchestration [of 3 ?high "[]", THEN conjunct2]
  show ?thesis
    using too_few low high
    by (simp add: word_sle_eq low_mean low_variance high_mean high_variance)
qed

end
